theory Spec2Isabelle
  imports Main
begin

section \<open>Dates and the date library\<close>

text \<open>
  A JavaScript \<open>Date\<close> holds a time value in milliseconds since the epoch, or is the
  Invalid Date. The program takes \<open>parseISO\<close>, \<open>format\<close>, \<open>subDays\<close>, \<open>isBefore\<close>
  and \<open>isAfter\<close> from date-fns. The two comparisons are modelled by what the library
  documents (a strict comparison of the time values, false as soon as one date is invalid);
  parsing, formatting and day arithmetic are parameters of the model, collected in the
  record \<open>datefns\<close>, together with the built-ins \<open>new Date(string)\<close> and
  \<open>String.prototype.trim\<close>.
\<close>

datatype date = InvalidDate | Date int

fun isBefore :: "date \<Rightarrow> date \<Rightarrow> bool" where
  "isBefore (Date a) (Date b) = (a < b)"
| "isBefore _ _ = False"

fun isAfter :: "date \<Rightarrow> date \<Rightarrow> bool" where
  "isAfter (Date a) (Date b) = (a > b)"
| "isAfter _ _ = False"

record datefns =
  parseISO :: "string \<Rightarrow> date"
  format_valid :: "int \<Rightarrow> string \<Rightarrow> string"
  subDays :: "date \<Rightarrow> int \<Rightarrow> date"
  newDate :: "string \<Rightarrow> date"
  trim :: "string \<Rightarrow> string"

datatype js_error = RangeError

text \<open>\<open>format\<close> of date-fns throws a RangeError on the Invalid Date.\<close>

definition format :: "datefns \<Rightarrow> date \<Rightarrow> string \<Rightarrow> js_error + string" where
  "format L d pat = (case d of InvalidDate \<Rightarrow> Inl RangeError | Date t \<Rightarrow> Inr (format_valid L t pat))"

section \<open>Numbers as text\<close>

text \<open>
  Template literals and \<open>JSON.stringify\<close> print an integer in decimal. The model's
  numbers are integers (commit counts, disk usage, thresholds, lengths).
\<close>

definition digit_char :: "nat \<Rightarrow> char" where
  "digit_char d = char_of (48 + d)"

function show_nat :: "nat \<Rightarrow> string" where
  "show_nat n = (if n < 10 then [digit_char n] else show_nat (n div 10) @ [digit_char (n mod 10)])"
  by pat_completeness auto
termination
  by (relation "measure (\<lambda>n. n)") auto

declare show_nat.simps [simp del]

definition show_int :: "int \<Rightarrow> string" where
  "show_int i = (if i < 0 then CHR ''-'' # show_nat (nat (- i)) else show_nat (nat i))"

section \<open>The remote source's answer\<close>

text \<open>
  The fields of the GraphQL query of \<open>src/gh-stale-repos.ts\<close>, lines 204 to 239. A field
  that may be null or missing is an option; the optional chaining of the program reads
  through these options.
\<close>

record gh_user =
  login :: "string option"

record gh_author =
  name :: "string option"
  email :: "string option"
  user :: "gh_user option"

record gh_commit =
  committedDate :: "string option"
  author :: "gh_author option"

record gh_history =
  totalCount :: "int option"
  nodes :: "gh_commit list option"

record gh_target =
  history :: "gh_history option"

record gh_ref =
  target :: "gh_target option"

record gh_repo =
  name :: string
  pushedAt :: string
  diskUsage :: "int option"
  defaultBranchRef :: "gh_ref option"

record gh_pageInfo =
  endCursor :: "string option"
  hasNextPage :: bool

record gh_repositories =
  nodes :: "gh_repo list"
  pageInfo :: gh_pageInfo

text \<open>
  \<open>res.ok\<close> is false: the answer carries its body text. Otherwise the body is taken to
  be a well-formed \<open>data.organization.repositories\<close> object.
\<close>

datatype response = NotOk string | Ok gh_repositories

section \<open>Result records\<close>

text \<open>
  The records of the two earlier versions of the program (the first embedded program of
  \<open>src/gh-stale-repos.ts\<close>, and \<open>src/unnamed/part_000\<close>), then the record of the current
  program, whose field \<open>size\<close> is written \<open>size'\<close> here.
\<close>

record result_first =
  name :: string
  pushedAt :: string
  commits :: int

record result_part0 =
  name :: string
  pushedAt :: string
  commits :: int
  lastCommitDate :: string
  lastCommitAuthor :: string
  lastCommitAuthorEmail :: string

record result =
  name :: string
  pushedAt :: string
  commits :: int
  size' :: string
  lastCommitDate :: string
  lastCommitAuthor :: string
  lastCommitAuthorEmail :: string


section \<open>JSON values and JSON.stringify with an indentation of two spaces\<close>

text \<open>
  Strings are sequences of bytes (UTF-8); a character outside ASCII is several bytes, none
  of them below 128, and \<open>JSON.stringify\<close> copies them unchanged. Numbers are integers.
\<close>

datatype json =
    JNull
  | JBool bool
  | JNumber int
  | JString string
  | JArray "json list"
  | JObject "(string \<times> json) list"

definition hex_digit :: "nat \<Rightarrow> char" where
  "hex_digit d = (if d < 10 then char_of (48 + d) else char_of (87 + d))"

text \<open>
  QuoteJSONString: the quote, the backslash and the control characters are escaped, the
  five named ones by their letter, the others as \<open>\u00XX\<close> in lower-case hexadecimal.
\<close>

definition escape :: "char \<Rightarrow> string" where
  "escape c =
     (if c = CHR 0x22 then [CHR 0x5C, CHR 0x22]
      else if c = CHR 0x5C then [CHR 0x5C, CHR 0x5C]
      else if c = CHR 0x08 then [CHR 0x5C, CHR ''b'']
      else if c = CHR 0x09 then [CHR 0x5C, CHR ''t'']
      else if c = CHR 0x0A then [CHR 0x5C, CHR ''n'']
      else if c = CHR 0x0C then [CHR 0x5C, CHR ''f'']
      else if c = CHR 0x0D then [CHR 0x5C, CHR ''r'']
      else if (of_char c :: nat) < 32
      then [CHR 0x5C, CHR ''u'', CHR ''0'', CHR ''0'',
            hex_digit (of_char c div 16), hex_digit (of_char c mod 16)]
      else [c])"

definition quote :: "string \<Rightarrow> string" where
  "quote s = CHR 0x22 # concat (map escape s) @ [CHR 0x22]"

text \<open>A line feed and the indentation of nesting depth \<open>k\<close>.\<close>

definition newline :: "nat \<Rightarrow> string" where
  "newline k = CHR 0x0A # replicate (2 * k) CHR '' ''"

fun stringify :: "nat \<Rightarrow> json \<Rightarrow> string"
  and stringify_items :: "nat \<Rightarrow> json list \<Rightarrow> string"
  and stringify_members :: "nat \<Rightarrow> (string \<times> json) list \<Rightarrow> string"
where
  "stringify k JNull = ''null''"
| "stringify k (JBool b) = (if b then ''true'' else ''false'')"
| "stringify k (JNumber i) = show_int i"
| "stringify k (JString s) = quote s"
| "stringify k (JArray []) = ''[]''"
| "stringify k (JArray (x # xs)) =
     ''['' @ newline (Suc k) @ stringify_items (Suc k) (x # xs) @ newline k @ '']''"
| "stringify k (JObject []) = ''{}''"
| "stringify k (JObject (m # ms)) =
     ''{'' @ newline (Suc k) @ stringify_members (Suc k) (m # ms) @ newline k @ ''}''"
| "stringify_items k [] = []"
| "stringify_items k [x] = stringify k x"
| "stringify_items k (x # y # ys) =
     stringify k x @ '','' @ newline k @ stringify_items k (y # ys)"
| "stringify_members k [] = []"
| "stringify_members k [(key, v)] = quote key @ '': '' @ stringify k v"
| "stringify_members k ((key, v) # m # ms) =
     quote key @ '': '' @ stringify k v @ '','' @ newline k @ stringify_members k (m # ms)"

text \<open>\<open>JSON.stringify(value, null, 2)\<close>.\<close>

definition JSON_stringify :: "json \<Rightarrow> string" where
  "JSON_stringify v = stringify 0 v"

text \<open>A result record as the object \<open>JSON.stringify\<close> walks: its own properties in creation order.\<close>

definition result_json :: "result \<Rightarrow> json" where
  "result_json r =
     JObject [(''name'', JString (result.name r)),
              (''pushedAt'', JString (result.pushedAt r)),
              (''commits'', JNumber (commits r)),
              (''size'', JString (size' r)),
              (''lastCommitDate'', JString (lastCommitDate r)),
              (''lastCommitAuthor'', JString (lastCommitAuthor r)),
              (''lastCommitAuthorEmail'', JString (lastCommitAuthorEmail r))]"


section \<open>The program's globals, its events and outcomes\<close>

record options =
  org :: string
  token :: "string option"
  commitThreshold :: int
  staleDays :: int
  ignore :: "string option"
  json :: bool
  csv :: "string option"

record globals =
  lib :: datefns
  opts :: options
  cutoffDate :: date
  ignoreList :: "string set"

datatype cell = Str string | Num int

datatype event =
    ConsoleLog string
  | ConsoleError string
  | Fetch "string option"
  | WriteTextFile string string
  | WriteCSV string "json list"
  | TableRender "string list" "cell list list"

text \<open>
  How a computation ends: it returns, it throws, the process exits with a code, or the
  fuel of the model ran out while the loop was still running.
\<close>

datatype 'a outcome = Return 'a | Throw js_error | ProcessExit int | Running

section \<open>JavaScript's truthiness on the values used\<close>

definition truthy :: "string option \<Rightarrow> bool" where
  "truthy v = (case v of None \<Rightarrow> False | Some s \<Rightarrow> s \<noteq> [])"

text \<open>\<open>a || b\<close> on an optional string and a string.\<close>

definition or_else :: "string option \<Rightarrow> string \<Rightarrow> string" where
  "or_else v d = (case v of None \<Rightarrow> d | Some s \<Rightarrow> if s \<noteq> [] then s else d)"

section \<open>fetchStaleRepos (src/gh-stale-repos.ts, lines 241 to 319)\<close>

definition repo_history :: "gh_repo \<Rightarrow> gh_history option" where
  "repo_history repo =
     Option.bind (defaultBranchRef repo) (\<lambda>r. Option.bind (target r) history)"

definition lastCommitInfo :: "gh_repo \<Rightarrow> gh_commit option" where
  "lastCommitInfo repo =
     Option.bind (repo_history repo) (\<lambda>h. Option.bind (gh_history.nodes h)
       (\<lambda>ns. case ns of [] \<Rightarrow> None | c # _ \<Rightarrow> Some c))"

text \<open>
  \<open>lastCommitInfo?.committedDate || pushedAt\<close> is a string or a Date;
  \<open>new Date(lastCommitDate)\<close> parses the string or copies the Date.
\<close>

definition lastCommitDate_of :: "datefns \<Rightarrow> gh_repo \<Rightarrow> date \<Rightarrow> date" where
  "lastCommitDate_of L repo pushed =
     (case Option.bind (lastCommitInfo repo) committedDate of
        None \<Rightarrow> pushed
      | Some s \<Rightarrow> if s \<noteq> [] then newDate L s else pushed)"

definition author_of :: "gh_repo \<Rightarrow> string" where
  "author_of repo =
     (let a = Option.bind (lastCommitInfo repo) author
      in or_else (Option.bind (Option.bind a user) login)
           (or_else (Option.bind a gh_author.name) ''unknown''))"

definition authorEmail_of :: "gh_repo \<Rightarrow> string" where
  "authorEmail_of repo =
     or_else (Option.bind (Option.bind (lastCommitInfo repo) author) email) ''unknown''"

definition totalCommits_of :: "gh_repo \<Rightarrow> int" where
  "totalCommits_of repo =
     (case Option.bind (repo_history repo) totalCount of
        None \<Rightarrow> 0
      | Some n \<Rightarrow> if n \<noteq> 0 then n else 0)"

definition size_of :: "gh_repo \<Rightarrow> string" where
  "size_of repo =
     (case diskUsage repo of None \<Rightarrow> ''null'' | Some k \<Rightarrow> show_int k) @ '' kB''"

text \<open>The object pushed at lines 297 to 308; either call of \<open>format\<close> may throw.\<close>

definition stale_record :: "datefns \<Rightarrow> gh_repo \<Rightarrow> js_error + result" where
  "stale_record L repo =
     (let pushed = parseISO L (gh_repo.pushedAt repo)
      in case format L pushed ''yyyy-MM-dd'' of
           Inl e \<Rightarrow> Inl e
         | Inr p \<Rightarrow>
            (case format L (lastCommitDate_of L repo pushed) ''yyyy-MM-dd'' of
               Inl e \<Rightarrow> Inl e
             | Inr d \<Rightarrow> Inr \<lparr> result.name = gh_repo.name repo,
                             result.pushedAt = p,
                             commits = totalCommits_of repo,
                             size' = size_of repo,
                             lastCommitDate = d,
                             lastCommitAuthor = author_of repo,
                             lastCommitAuthorEmail = authorEmail_of repo \<rparr>))"

text \<open>
  The \<open>for\<close> loop over one page (lines 272 to 310). It returns the results so far and the
  flag \<open>hasNextPage\<close>: still true when the page was walked to its end, false after the
  \<open>break\<close>.
\<close>

fun for_nodes ::
  "globals \<Rightarrow> gh_repo list \<Rightarrow> result list \<Rightarrow> event list \<Rightarrow> event list \<times> (result list \<times> bool) outcome"
where
  "for_nodes G [] staleRepos tr = (tr, Return (staleRepos, True))"
| "for_nodes G (repo # rest) staleRepos tr =
     (if gh_repo.name repo \<in> ignoreList G
      then for_nodes G rest staleRepos (tr @ [ConsoleLog (''Ignoring '' @ gh_repo.name repo)])
      else
        let pushed = parseISO (lib G) (gh_repo.pushedAt repo) in
        if isAfter pushed (cutoffDate G) then (tr, Return (staleRepos, False))
        else
          let isStale = isBefore pushed (cutoffDate G);
              totalCommits = totalCommits_of repo
          in if isStale \<and> totalCommits < commitThreshold (opts G)
             then (case stale_record (lib G) repo of
                     Inl e \<Rightarrow> (tr, Throw e)
                   | Inr r \<Rightarrow> for_nodes G rest (staleRepos @ [r]) tr)
             else for_nodes G rest staleRepos tr)"

text \<open>\<open>console.error\<close> prints its two arguments with a space between them.\<close>

definition api_error :: "string \<Rightarrow> string" where
  "api_error body = [CHR 0xE2, CHR 0x9D, CHR 0x8C] @ '' GitHub API error:'' @ '' '' @ body"

text \<open>
  The \<open>while (hasNextPage)\<close> loop (lines 256 to 316). The remote source is a function from
  the cursor sent to the answer received. Each iteration uses one unit of fuel.
\<close>

fun fetch_loop ::
  "nat \<Rightarrow> globals \<Rightarrow> (string option \<Rightarrow> response) \<Rightarrow> string option \<Rightarrow> bool \<Rightarrow> result list \<Rightarrow>
     event list \<Rightarrow> event list \<times> result list outcome"
where
  "fetch_loop 0 G srv cursor hasNextPage' staleRepos tr =
     (if \<not> hasNextPage' then (tr, Return staleRepos) else (tr, Running))"
| "fetch_loop (Suc n) G srv cursor hasNextPage' staleRepos tr =
     (if \<not> hasNextPage' then (tr, Return staleRepos)
      else
        case srv cursor of
          NotOk body \<Rightarrow> (tr @ [Fetch cursor, ConsoleError (api_error body)], ProcessExit 1)
        | Ok repos \<Rightarrow>
           (case for_nodes G (gh_repositories.nodes repos) staleRepos (tr @ [Fetch cursor]) of
              (tr', Return (staleRepos', hasNextPage'')) \<Rightarrow>
                if hasNextPage''
                then fetch_loop n G srv (endCursor (pageInfo repos))
                       (hasNextPage (pageInfo repos)) staleRepos' tr'
                else fetch_loop n G srv cursor False staleRepos' tr'
            | (tr', Throw e) \<Rightarrow> (tr', Throw e)
            | (tr', ProcessExit c) \<Rightarrow> (tr', ProcessExit c)
            | (tr', Running) \<Rightarrow> (tr', Running)))"

definition fetchStaleRepos ::
  "nat \<Rightarrow> globals \<Rightarrow> (string option \<Rightarrow> response) \<Rightarrow> event list \<Rightarrow> event list \<times> result list outcome"
where
  "fetchStaleRepos n G srv tr = fetch_loop n G srv None True [] tr"


section \<open>The main program (src/gh-stale-repos.ts, lines 189 to 197 and 321 to 370)\<close>

text \<open>
  What a run reads from outside: the clock, the file system and the remote source.
\<close>

record world =
  now :: date
  readTextFile :: "string \<Rightarrow> string option"
  fetch :: "string option \<Rightarrow> response"

text \<open>The pictographs of the messages, as their UTF-8 bytes.\<close>

definition cross_mark :: string where
  "cross_mark = [CHR 0xE2, CHR 0x9D, CHR 0x8C]"

definition check_mark :: string where
  "check_mark = [CHR 0xE2, CHR 0x9C, CHR 0x85]"

definition magnifier :: string where
  "magnifier = [CHR 0xF0, CHR 0x9F, CHR 0x94, CHR 0x8D]"

definition package_icon :: string where
  "package_icon = [CHR 0xF0, CHR 0x9F, CHR 0x93, CHR 0xA6]"

definition page_icon :: string where
  "page_icon = [CHR 0xF0, CHR 0x9F, CHR 0x93, CHR 0x84]"

definition token_required :: string where
  "token_required =
     cross_mark @ '' GitHub token is required. Pass with --token or set GH_SR_TOKEN env var.''"

definition scanning_msg :: "options \<Rightarrow> string" where
  "scanning_msg cfg =
     magnifier @ '' Scanning '' @ [CHR 0x22] @ org cfg @ [CHR 0x22] @ '' for repos not updated in '' @
     show_int (staleDays cfg) @ '' days with < '' @ show_int (commitThreshold cfg) @
     '' commits...'' @ [CHR 0x0A]"

definition no_stale_msg :: string where
  "no_stale_msg = check_mark @ '' No stale, low-activity repos found!''"

definition found_msg :: "nat \<Rightarrow> string" where
  "found_msg k =
     package_icon @ '' Found '' @ show_nat k @ '' stale, low-activity repos:'' @ [CHR 0x0A]"

definition csv_saved_msg :: "string \<Rightarrow> string" where
  "csv_saved_msg file = page_icon @ '' CSV saved to '' @ file"

text \<open>\<open>text.split("\n")\<close> and \<open>lines.join("\n")\<close>.\<close>

fun split_on :: "char \<Rightarrow> string \<Rightarrow> string list" where
  "split_on c [] = [[]]"
| "split_on c (x # xs) =
     (if x = c then [] # split_on c xs
      else case split_on c xs of
             [] \<Rightarrow> [[x]]
           | l # ls \<Rightarrow> (x # l) # ls)"

fun join_with :: "string \<Rightarrow> string list \<Rightarrow> string" where
  "join_with sep [] = []"
| "join_with sep [l] = l"
| "join_with sep (l # m # ls) = l @ sep @ join_with sep (m # ls)"

text \<open>readIgnoreList (lines 148 to 155): a file that cannot be read gives the empty set.\<close>

definition readIgnoreList :: "datefns \<Rightarrow> world \<Rightarrow> string \<Rightarrow> string set" where
  "readIgnoreList L W filePath =
     (case readTextFile W filePath of
        None \<Rightarrow> {}
      | Some text \<Rightarrow> set (filter (\<lambda>line. line \<noteq> []) (map (trim L) (split_on (CHR 0x0A) text))))"

text \<open>The globals computed at lines 198 and 324.\<close>

definition globals_of :: "datefns \<Rightarrow> world \<Rightarrow> options \<Rightarrow> globals" where
  "globals_of L W cfg =
     \<lparr> lib = L, opts = cfg,
       cutoffDate = subDays L (now W) (staleDays cfg),
       ignoreList = (case ignore cfg of
                       None \<Rightarrow> {}
                     | Some file \<Rightarrow> if file \<noteq> [] then readIgnoreList L W file else {}) \<rparr>"

definition csv_line :: "result \<Rightarrow> string" where
  "csv_line r =
     result.name r @ '','' @ show_int (commits r) @ '','' @ size' r @ '','' @ result.pushedAt r @ '','' @
     lastCommitDate r @ '','' @ lastCommitAuthor r @ '','' @ lastCommitAuthorEmail r"

definition table_row :: "result \<Rightarrow> cell list" where
  "table_row r =
     [Str ([CHR 0x1B] @ ''[36m'' @ result.name r @ [CHR 0x1B] @ ''[0m''), Num (commits r), Str (size' r),
      Str (result.pushedAt r), Str (lastCommitDate r), Str (lastCommitAuthor r),
      Str (lastCommitAuthorEmail r)]"

text \<open>Lines 327 to 370: what the program does with the results.\<close>

definition report :: "options \<Rightarrow> result list \<Rightarrow> event list \<Rightarrow> event list \<times> unit outcome" where
  "report cfg results tr =
     (if length results = 0 then (tr @ [ConsoleLog no_stale_msg], ProcessExit 0)
      else
        let tr1 = tr @ [ConsoleLog (found_msg (length results))] in
        if json cfg
        then (tr1 @ [ConsoleLog (JSON_stringify (JArray (map result_json results)))], Return ())
        else if truthy (csv cfg)
        then (tr1 @ [WriteTextFile (or_else (csv cfg) [])
                       (join_with [CHR 0x0A]
                          (''Repo,Commits,Size in kB,Last Updated,Last Commit,Author,Author Email'' #
                           map csv_line results)),
                     ConsoleLog (csv_saved_msg (or_else (csv cfg) []))], Return ())
        else (tr1 @ [TableRender [''Repo'', ''Commits'', ''Size in kB'', ''Last Updated'',
                                  ''Last Commit'', ''Author'', ''Email'']
                       (map table_row results)], Return ()))"

definition main :: "nat \<Rightarrow> datefns \<Rightarrow> world \<Rightarrow> options \<Rightarrow> event list \<times> unit outcome" where
  "main n L W cfg =
     (if \<not> truthy (token cfg) then ([ConsoleError token_required], ProcessExit 1)
      else
        case fetchStaleRepos n (globals_of L W cfg) (fetch W) [ConsoleLog (scanning_msg cfg)] of
          (tr, Return results) \<Rightarrow> report cfg results tr
        | (tr, Throw e) \<Rightarrow> (tr, Throw e)
        | (tr, ProcessExit c) \<Rightarrow> (tr, ProcessExit c)
        | (tr, Running) \<Rightarrow> (tr, Running))"

section \<open>The first embedded program of src/gh-stale-repos.ts (lines 1 to 135)\<close>

text \<open>
  This version has no ignore list and no early stop; its records have three fields. It
  reads \<open>cutoffDate\<close> and \<open>commitThreshold\<close> of the globals only.
\<close>

fun for_nodes_first ::
  "globals \<Rightarrow> gh_repo list \<Rightarrow> result_first list \<Rightarrow> js_error + result_first list"
where
  "for_nodes_first G [] staleRepos = Inr staleRepos"
| "for_nodes_first G (repo # rest) staleRepos =
     (let pushed = parseISO (lib G) (gh_repo.pushedAt repo);
          isStale = isBefore pushed (cutoffDate G);
          commits = totalCommits_of repo
      in if isStale \<and> commits < commitThreshold (opts G)
         then (case format (lib G) pushed ''yyyy-MM-dd'' of
                 Inl e \<Rightarrow> Inl e
               | Inr p \<Rightarrow> for_nodes_first G rest
                            (staleRepos @ [\<lparr> result_first.name = gh_repo.name repo,
                                             result_first.pushedAt = p,
                                             result_first.commits = commits \<rparr>]))
         else for_nodes_first G rest staleRepos)"

fun fetch_loop_first ::
  "nat \<Rightarrow> globals \<Rightarrow> (string option \<Rightarrow> response) \<Rightarrow> string option \<Rightarrow> result_first list \<Rightarrow>
     event list \<Rightarrow> event list \<times> result_first list outcome"
where
  "fetch_loop_first 0 G srv cursor staleRepos tr = (tr, Running)"
| "fetch_loop_first (Suc n) G srv cursor staleRepos tr =
     (case srv cursor of
        NotOk body \<Rightarrow> (tr @ [Fetch cursor, ConsoleError (api_error body)], ProcessExit 1)
      | Ok repos \<Rightarrow>
         (case for_nodes_first G (gh_repositories.nodes repos) staleRepos of
            Inl e \<Rightarrow> (tr @ [Fetch cursor], Throw e)
          | Inr staleRepos' \<Rightarrow>
              if \<not> hasNextPage (pageInfo repos) then (tr @ [Fetch cursor], Return staleRepos')
              else fetch_loop_first n G srv (endCursor (pageInfo repos)) staleRepos'
                     (tr @ [Fetch cursor])))"

definition first_json :: "result_first \<Rightarrow> json" where
  "first_json r =
     JObject [(''name'', JString (result_first.name r)),
              (''pushedAt'', JString (result_first.pushedAt r)),
              (''commits'', JNumber (result_first.commits r))]"

definition csv_data_first :: "result_first \<Rightarrow> json" where
  "csv_data_first r =
     JObject [(''name'', JString (result_first.name r)),
              (''commits'', JNumber (result_first.commits r)),
              (''pushedAt'', JString (result_first.pushedAt r))]"

definition report_first ::
  "options \<Rightarrow> result_first list \<Rightarrow> event list \<Rightarrow> event list \<times> unit outcome"
where
  "report_first cfg results tr =
     (if length results = 0 then (tr @ [ConsoleLog no_stale_msg], ProcessExit 0)
      else
        let tr1 = (if length results = 0 then tr @ [ConsoleLog no_stale_msg] else tr) in
        if json cfg
        then (tr1 @ [ConsoleLog (JSON_stringify (JArray (map first_json results)))], Return ())
        else if truthy (csv cfg)
        then (tr1 @ [WriteCSV (or_else (csv cfg) []) (map csv_data_first results),
                     ConsoleLog (csv_saved_msg (or_else (csv cfg) []))], Return ())
        else (tr1 @ [TableRender [''Repo'', ''Commits'', ''Last Pushed'']
                       (map (\<lambda>r. [Str ([CHR 0x1B] @ ''[36m'' @ result_first.name r @ [CHR 0x1B] @ ''[0m''),
                                   Num (result_first.commits r), Str (result_first.pushedAt r)])
                          results)], Return ()))"

definition main_first :: "nat \<Rightarrow> datefns \<Rightarrow> world \<Rightarrow> options \<Rightarrow> event list \<times> unit outcome" where
  "main_first n L W cfg =
     (if \<not> truthy (token cfg) then ([ConsoleError token_required], ProcessExit 1)
      else
        case fetch_loop_first n
               \<lparr> lib = L, opts = cfg, cutoffDate = subDays L (now W) (staleDays cfg), ignoreList = {} \<rparr>
               (fetch W) None [] [ConsoleLog (or_else (token cfg) []), ConsoleLog (scanning_msg cfg)] of
          (tr, Return results) \<Rightarrow> report_first cfg results tr
        | (tr, Throw e) \<Rightarrow> (tr, Throw e)
        | (tr, ProcessExit c) \<Rightarrow> (tr, ProcessExit c)
        | (tr, Running) \<Rightarrow> (tr, Running))"

section \<open>The program of src/unnamed/part_000\<close>

text \<open>
  This version has no ignore list, no early stop and no size field; otherwise its records
  are built as in the current program.
\<close>

definition record_part0 :: "datefns \<Rightarrow> gh_repo \<Rightarrow> js_error + result_part0" where
  "record_part0 L repo =
     (let pushed = parseISO L (gh_repo.pushedAt repo)
      in case format L pushed ''yyyy-MM-dd'' of
           Inl e \<Rightarrow> Inl e
         | Inr p \<Rightarrow>
            (case format L (lastCommitDate_of L repo pushed) ''yyyy-MM-dd'' of
               Inl e \<Rightarrow> Inl e
             | Inr d \<Rightarrow> Inr \<lparr> result_part0.name = gh_repo.name repo,
                             result_part0.pushedAt = p,
                             result_part0.commits = totalCommits_of repo,
                             result_part0.lastCommitDate = d,
                             result_part0.lastCommitAuthor = author_of repo,
                             result_part0.lastCommitAuthorEmail = authorEmail_of repo \<rparr>))"

fun for_nodes_part0 ::
  "globals \<Rightarrow> gh_repo list \<Rightarrow> result_part0 list \<Rightarrow> js_error + result_part0 list"
where
  "for_nodes_part0 G [] staleRepos = Inr staleRepos"
| "for_nodes_part0 G (repo # rest) staleRepos =
     (let pushed = parseISO (lib G) (gh_repo.pushedAt repo);
          isStale = isBefore pushed (cutoffDate G);
          totalCommits = totalCommits_of repo
      in if isStale \<and> totalCommits < commitThreshold (opts G)
         then (case record_part0 (lib G) repo of
                 Inl e \<Rightarrow> Inl e
               | Inr r \<Rightarrow> for_nodes_part0 G rest (staleRepos @ [r]))
         else for_nodes_part0 G rest staleRepos)"

fun fetch_loop_part0 ::
  "nat \<Rightarrow> globals \<Rightarrow> (string option \<Rightarrow> response) \<Rightarrow> string option \<Rightarrow> result_part0 list \<Rightarrow>
     event list \<Rightarrow> event list \<times> result_part0 list outcome"
where
  "fetch_loop_part0 0 G srv cursor staleRepos tr = (tr, Running)"
| "fetch_loop_part0 (Suc n) G srv cursor staleRepos tr =
     (case srv cursor of
        NotOk body \<Rightarrow> (tr @ [Fetch cursor, ConsoleError (api_error body)], ProcessExit 1)
      | Ok repos \<Rightarrow>
         (case for_nodes_part0 G (gh_repositories.nodes repos) staleRepos of
            Inl e \<Rightarrow> (tr @ [Fetch cursor], Throw e)
          | Inr staleRepos' \<Rightarrow>
              if \<not> hasNextPage (pageInfo repos) then (tr @ [Fetch cursor], Return staleRepos')
              else fetch_loop_part0 n G srv (endCursor (pageInfo repos)) staleRepos'
                     (tr @ [Fetch cursor])))"

definition part0_json :: "result_part0 \<Rightarrow> json" where
  "part0_json r =
     JObject [(''name'', JString (result_part0.name r)),
              (''pushedAt'', JString (result_part0.pushedAt r)),
              (''commits'', JNumber (result_part0.commits r)),
              (''lastCommitDate'', JString (result_part0.lastCommitDate r)),
              (''lastCommitAuthor'', JString (result_part0.lastCommitAuthor r)),
              (''lastCommitAuthorEmail'', JString (result_part0.lastCommitAuthorEmail r))]"

definition csv_line_part0 :: "result_part0 \<Rightarrow> string" where
  "csv_line_part0 r =
     result_part0.name r @ '','' @ show_int (result_part0.commits r) @ '','' @
     result_part0.pushedAt r @ '','' @ result_part0.lastCommitDate r @ '','' @
     result_part0.lastCommitAuthor r @ '','' @ result_part0.lastCommitAuthorEmail r"

definition report_part0 ::
  "options \<Rightarrow> result_part0 list \<Rightarrow> event list \<Rightarrow> event list \<times> unit outcome"
where
  "report_part0 cfg results tr =
     (if length results = 0 then (tr @ [ConsoleLog no_stale_msg], ProcessExit 0)
      else
        let tr1 = (if length results = 0 then tr @ [ConsoleLog no_stale_msg] else tr) in
        if json cfg
        then (tr1 @ [ConsoleLog (JSON_stringify (JArray (map part0_json results)))], Return ())
        else if truthy (csv cfg)
        then (tr1 @ [WriteTextFile (or_else (csv cfg) [])
                       (join_with [CHR 0x0A]
                          (''Repo,Commits,Last Updated,Last Commit,Author,Author Email'' #
                           map csv_line_part0 results)),
                     ConsoleLog (csv_saved_msg (or_else (csv cfg) []))], Return ())
        else (tr1 @ [TableRender [''Repo'', ''Commits'', ''Last Pushed'']
                       (map (\<lambda>r. [Str ([CHR 0x1B] @ ''[36m'' @ result_part0.name r @ [CHR 0x1B] @ ''[0m''),
                                   Num (result_part0.commits r), Str (result_part0.pushedAt r)])
                          results)], Return ()))"

definition main_part0 :: "nat \<Rightarrow> datefns \<Rightarrow> world \<Rightarrow> options \<Rightarrow> event list \<times> unit outcome" where
  "main_part0 n L W cfg =
     (if \<not> truthy (token cfg) then ([ConsoleError token_required], ProcessExit 1)
      else
        case fetch_loop_part0 n
               \<lparr> lib = L, opts = cfg, cutoffDate = subDays L (now W) (staleDays cfg), ignoreList = {} \<rparr>
               (fetch W) None [] [ConsoleLog (or_else (token cfg) []), ConsoleLog (scanning_msg cfg)] of
          (tr, Return results) \<Rightarrow> report_part0 cfg results tr
        | (tr, Throw e) \<Rightarrow> (tr, Throw e)
        | (tr, ProcessExit c) \<Rightarrow> (tr, ProcessExit c)
        | (tr, Running) \<Rightarrow> (tr, Running))"


section \<open>Reading the JSON text back\<close>

text \<open>
  The program only writes JSON. To state that its output can be read back, this section
  models the reader, the built-in \<open>JSON.parse\<close>, on the part of JSON that the model of
  \<open>JSON.stringify\<close> covers: numbers are integers (a fraction or an exponent makes the reader
  fail), and a \<open>\u\<close> escape is read when it denotes a character below 128. An object is
  read as the list of its members in the order of the text; a field is then looked up from
  the end of that list, since the last of several members with one key is the one that
  counts.
\<close>

definition is_ws :: "char \<Rightarrow> bool" where
  "is_ws c \<longleftrightarrow> c = CHR '' '' \<or> c = CHR 0x09 \<or> c = CHR 0x0A \<or> c = CHR 0x0D"

definition skip_ws :: "string \<Rightarrow> string" where
  "skip_ws s = dropWhile is_ws s"

definition is_digit :: "char \<Rightarrow> bool" where
  "is_digit c \<longleftrightarrow> 48 \<le> (of_char c :: nat) \<and> (of_char c :: nat) \<le> 57"

definition digit_val :: "char \<Rightarrow> nat" where
  "digit_val c = of_char c - 48"

fun read_digits :: "nat \<Rightarrow> string \<Rightarrow> nat \<times> string" where
  "read_digits acc [] = (acc, [])"
| "read_digits acc (c # cs) =
     (if is_digit c then read_digits (10 * acc + digit_val c) cs else (acc, c # cs))"

text \<open>The integer part of a JSON number: a single zero, or digits that do not start with zero.\<close>

definition parse_nat :: "string \<Rightarrow> (nat \<times> string) option" where
  "parse_nat s =
     (case s of
        [] \<Rightarrow> None
      | c # cs \<Rightarrow>
          if c = CHR ''0'' then Some (0, cs)
          else if is_digit c then Some (read_digits 0 (c # cs))
          else None)"

definition parse_number :: "string \<Rightarrow> (int \<times> string) option" where
  "parse_number s =
     (case s of
        [] \<Rightarrow> None
      | c # cs \<Rightarrow>
          if c = CHR ''-'' then map_option (\<lambda>(n, r). (- int n, r)) (parse_nat cs)
          else map_option (\<lambda>(n, r). (int n, r)) (parse_nat s))"

definition hex_val :: "char \<Rightarrow> nat option" where
  "hex_val c =
     (let n = (of_char c :: nat)
      in if 48 \<le> n \<and> n \<le> 57 then Some (n - 48)
         else if 97 \<le> n \<and> n \<le> 102 then Some (n - 87)
         else if 65 \<le> n \<and> n \<le> 70 then Some (n - 55)
         else None)"

definition unescape :: "char \<Rightarrow> char option" where
  "unescape e =
     (if e = CHR 0x22 then Some (CHR 0x22)
      else if e = CHR 0x5C then Some (CHR 0x5C)
      else if e = CHR ''/'' then Some (CHR ''/'')
      else if e = CHR ''b'' then Some (CHR 0x08)
      else if e = CHR ''f'' then Some (CHR 0x0C)
      else if e = CHR ''n'' then Some (CHR 0x0A)
      else if e = CHR ''r'' then Some (CHR 0x0D)
      else if e = CHR ''t'' then Some (CHR 0x09)
      else None)"

text \<open>
  The characters of a string after its opening quote, up to the closing quote: the decoded
  string and the text that follows. A raw control character is an error.
\<close>

fun parse_chars :: "string \<Rightarrow> (string \<times> string) option" where
  "parse_chars [] = None"
| "parse_chars (c # cs) =
     (if c = CHR 0x22 then Some ([], cs)
      else if c = CHR 0x5C then
        (case cs of
           [] \<Rightarrow> None
         | e # cs1 \<Rightarrow>
             if e = CHR ''u'' then
               (case cs1 of
                  h1 # h2 # h3 # h4 # cs2 \<Rightarrow>
                    (case hex_val h1 of None \<Rightarrow> None | Some a \<Rightarrow>
                     case hex_val h2 of None \<Rightarrow> None | Some b \<Rightarrow>
                     case hex_val h3 of None \<Rightarrow> None | Some c' \<Rightarrow>
                     case hex_val h4 of None \<Rightarrow> None | Some d \<Rightarrow>
                       let n = ((a * 16 + b) * 16 + c') * 16 + d
                       in if n < 128
                          then map_option (\<lambda>(s, r). (char_of n # s, r)) (parse_chars cs2)
                          else None)
                | _ \<Rightarrow> None)
             else (case unescape e of
                     None \<Rightarrow> None
                   | Some d \<Rightarrow> map_option (\<lambda>(s, r). (d # s, r)) (parse_chars cs1)))
      else if (of_char c :: nat) < 32 then None
      else map_option (\<lambda>(s, r). (c # s, r)) (parse_chars cs))"

text \<open>
  A value, the elements of an array after its opening bracket, and the members of an
  object after its opening brace. Every call uses one unit of fuel.
\<close>

fun parse_value :: "nat \<Rightarrow> string \<Rightarrow> (json \<times> string) option"
  and parse_elements :: "nat \<Rightarrow> string \<Rightarrow> (json list \<times> string) option"
  and parse_members :: "nat \<Rightarrow> string \<Rightarrow> ((string \<times> json) list \<times> string) option"
where
  "parse_value 0 s = None"
| "parse_value (Suc n) s =
     (case skip_ws s of
        [] \<Rightarrow> None
      | c # cs \<Rightarrow>
          if c = CHR 0x22 then map_option (\<lambda>(str, r). (JString str, r)) (parse_chars cs)
          else if c = CHR ''[''
          then (case skip_ws cs of
                  [] \<Rightarrow> None
                | d # r \<Rightarrow> if d = CHR '']'' then Some (JArray [], r)
                           else map_option (\<lambda>(xs, r). (JArray xs, r)) (parse_elements n cs))
          else if c = CHR ''{''
          then (case skip_ws cs of
                  [] \<Rightarrow> None
                | d # r \<Rightarrow> if d = CHR ''}'' then Some (JObject [], r)
                           else map_option (\<lambda>(ms, r). (JObject ms, r)) (parse_members n cs))
          else if c = CHR ''t''
          then (if take 3 cs = ''rue'' then Some (JBool True, drop 3 cs) else None)
          else if c = CHR ''f''
          then (if take 4 cs = ''alse'' then Some (JBool False, drop 4 cs) else None)
          else if c = CHR ''n''
          then (if take 3 cs = ''ull'' then Some (JNull, drop 3 cs) else None)
          else map_option (\<lambda>(i, r). (JNumber i, r)) (parse_number (c # cs)))"
| "parse_elements 0 s = None"
| "parse_elements (Suc n) s =
     (case parse_value n s of
        None \<Rightarrow> None
      | Some (x, r) \<Rightarrow>
         (case skip_ws r of
            [] \<Rightarrow> None
          | d # r1 \<Rightarrow>
              if d = CHR '','' then map_option (\<lambda>(xs, r2). (x # xs, r2)) (parse_elements n r1)
              else if d = CHR '']'' then Some ([x], r1)
              else None))"
| "parse_members 0 s = None"
| "parse_members (Suc n) s =
     (case skip_ws s of
        [] \<Rightarrow> None
      | q # cs \<Rightarrow>
          if q \<noteq> CHR 0x22 then None
          else
            (case parse_chars cs of
               None \<Rightarrow> None
             | Some (key, r) \<Rightarrow>
                (case skip_ws r of
                   [] \<Rightarrow> None
                 | d # r1 \<Rightarrow>
                     if d \<noteq> CHR '':'' then None
                     else
                       (case parse_value n r1 of
                          None \<Rightarrow> None
                        | Some (v, r2) \<Rightarrow>
                           (case skip_ws r2 of
                              [] \<Rightarrow> None
                            | e # r3 \<Rightarrow>
                                if e = CHR '','' then
                                  map_option (\<lambda>(ms, r4). ((key, v) # ms, r4)) (parse_members n r3)
                                else if e = CHR ''}'' then Some ([(key, v)], r3)
                                else None)))))"

text \<open>\<open>JSON.parse(text)\<close>: one value, with nothing but white space after it.\<close>

definition JSON_parse :: "string \<Rightarrow> json option" where
  "JSON_parse s =
     (case parse_value (length s) s of
        None \<Rightarrow> None
      | Some (v, r) \<Rightarrow> if skip_ws r = [] then Some v else None)"

text \<open>Reading the fields of a result record off a parsed object.\<close>

definition get_string :: "(string \<times> json) list \<Rightarrow> string \<Rightarrow> string option" where
  "get_string ms key = (case map_of (rev ms) key of Some (JString s) \<Rightarrow> Some s | _ \<Rightarrow> None)"

definition get_int :: "(string \<times> json) list \<Rightarrow> string \<Rightarrow> int option" where
  "get_int ms key = (case map_of (rev ms) key of Some (JNumber i) \<Rightarrow> Some i | _ \<Rightarrow> None)"

definition result_of_json :: "json \<Rightarrow> result option" where
  "result_of_json v =
     (case v of
        JObject ms \<Rightarrow>
          Option.bind (get_string ms ''name'') (\<lambda>n.
          Option.bind (get_string ms ''pushedAt'') (\<lambda>p.
          Option.bind (get_int ms ''commits'') (\<lambda>c.
          Option.bind (get_string ms ''size'') (\<lambda>s.
          Option.bind (get_string ms ''lastCommitDate'') (\<lambda>d.
          Option.bind (get_string ms ''lastCommitAuthor'') (\<lambda>a.
          Option.bind (get_string ms ''lastCommitAuthorEmail'') (\<lambda>e.
            Some \<lparr> result.name = n, result.pushedAt = p, commits = c, size' = s,
                   lastCommitDate = d, lastCommitAuthor = a, lastCommitAuthorEmail = e \<rparr>)))))))
      | _ \<Rightarrow> None)"

definition results_of_json :: "json \<Rightarrow> result list option" where
  "results_of_json v = (case v of JArray xs \<Rightarrow> those (map result_of_json xs) | _ \<Rightarrow> None)"

definition parse_results :: "string \<Rightarrow> result list option" where
  "parse_results s = Option.bind (JSON_parse s) results_of_json"


section \<open>Predicates used in the statements\<close>

text \<open>
  A candidate \<open>repo\<close> is the source of the record \<open>r\<close>: the record was built from it, and
  the candidate passed the three tests of the loop body.
\<close>

definition qualifies :: "globals \<Rightarrow> gh_repo \<Rightarrow> result \<Rightarrow> bool" where
  "qualifies G repo r \<longleftrightarrow>
     stale_record (lib G) repo = Inr r \<and>
     isBefore (parseISO (lib G) (gh_repo.pushedAt repo)) (cutoffDate G) \<and>
     totalCommits_of repo < commitThreshold (opts G) \<and>
     gh_repo.name repo \<notin> ignoreList G"

definition sourced :: "globals \<Rightarrow> (string option \<Rightarrow> response) \<Rightarrow> event list \<Rightarrow> result \<Rightarrow> bool" where
  "sourced G srv tr r \<longleftrightarrow>
     (\<exists>c page repo. Fetch c \<in> set tr \<and> srv c = Ok page \<and>
        repo \<in> set (gh_repositories.nodes page) \<and> qualifies G repo r)"

text \<open>
  A page that ends the loop: it reports no further page, or it holds a candidate that is
  not ignored and was pushed after the cutoff.
\<close>

definition ending_page :: "globals \<Rightarrow> gh_repositories \<Rightarrow> bool" where
  "ending_page G page \<longleftrightarrow>
     \<not> hasNextPage (pageInfo page) \<or>
     (\<exists>repo\<in>set (gh_repositories.nodes page). gh_repo.name repo \<notin> ignoreList G \<and>
        isAfter (parseISO (lib G) (gh_repo.pushedAt repo)) (cutoffDate G))"

text \<open>
  The remote source serves a finite stream with a strictly advancing cursor: every answer
  that reports a further page hands out a cursor with fewer pages left (\<open>rank\<close> counts
  them) than the cursor it answers.
\<close>

definition advancing :: "(string option \<Rightarrow> response) \<Rightarrow> (string option \<Rightarrow> nat) \<Rightarrow> bool" where
  "advancing srv rank \<longleftrightarrow>
     (\<forall>c page. srv c = Ok page \<and> hasNextPage (pageInfo page) \<longrightarrow>
        rank (endCursor (pageInfo page)) < rank c)"

text \<open>
  Every answer of the remote source is a page (no response is not ok).
\<close>

definition pages_only :: "(string option \<Rightarrow> response) \<Rightarrow> bool" where
  "pages_only srv \<longleftrightarrow> (\<forall>c. \<exists>page. srv c = Ok page)"

text \<open>
  The dates of a candidate are valid as far as the program formats them: when its push
  date parses to a valid date, its last-commit date (the commit date read by
  \<open>new Date\<close>, or the push date) is valid too. The remote source is dated when all
  candidates of all its pages are.
\<close>

definition valid_dates :: "datefns \<Rightarrow> gh_repo \<Rightarrow> bool" where
  "valid_dates L repo =
     (case parseISO L (gh_repo.pushedAt repo) of
        InvalidDate \<Rightarrow> True
      | Date t \<Rightarrow> lastCommitDate_of L repo (Date t) \<noteq> InvalidDate)"

definition dated :: "datefns \<Rightarrow> (string option \<Rightarrow> response) \<Rightarrow> bool" where
  "dated L srv \<longleftrightarrow>
     (\<forall>c page repo. srv c = Ok page \<and> repo \<in> set (gh_repositories.nodes page) \<longrightarrow>
        valid_dates L repo)"

text \<open>
  The events of the scan itself: a page request, or the note that a candidate is ignored.
  The report (the JSON text, the CSV file, the table) is none of them.
\<close>

definition scan_event :: "event \<Rightarrow> bool" where
  "scan_event e = (case e of Fetch c \<Rightarrow> True | ConsoleLog s \<Rightarrow> take 9 s = ''Ignoring '' | _ \<Rightarrow> False)"


text \<open>
  Two conditions on text used in the lemmas about reading JSON back: the text that follows
  a number does not go on with a digit, and a character can start a value.
\<close>

definition no_digit_start :: "string \<Rightarrow> bool" where
  "no_digit_start s = (case s of [] \<Rightarrow> True | c # _ \<Rightarrow> \<not> is_digit c)"

definition value_start :: "char \<Rightarrow> bool" where
  "value_start c \<longleftrightarrow> \<not> is_ws c \<and> c \<noteq> CHR '']'' \<and> c \<noteq> CHR ''}'' \<and> c \<noteq> CHR '','' \<and> c \<noteq> CHR '':''"


section \<open>Sample data\<close>

text \<open>
  A small date library over three instants, and the candidates of the scenario of the
  specification: \<open>a\<close> is stale with 5 commits, \<open>b\<close> was pushed ten days ago,
  \<open>c\<close> is stale with 50 commits, \<open>d\<close> is stale and on the ignore list, \<open>e\<close> is
  stale and has no default branch, \<open>f\<close> was pushed exactly at the cutoff.
\<close>

definition sample_times :: "(string \<times> int) list" where
  "sample_times =
     [(''2024-01-01T00:00:00Z'', 1704067200000),
      (''2024-06-01T00:00:00Z'', 1717200000000),
      (''2024-11-18T00:00:00Z'', 1731888000000)]"

definition sample_days :: "(int \<times> string) list" where
  "sample_days =
     [(1704067200000, ''2024-01-01''),
      (1717200000000, ''2024-06-01''),
      (1731888000000, ''2024-11-18'')]"

definition sample_parse :: "string \<Rightarrow> date" where
  "sample_parse s = (case map_of sample_times s of None \<Rightarrow> InvalidDate | Some t \<Rightarrow> Date t)"

definition sample_lib :: datefns where
  "sample_lib =
     \<lparr> parseISO = sample_parse,
       format_valid = (\<lambda>t pat. case map_of sample_days t of None \<Rightarrow> pat | Some d \<Rightarrow> d),
       subDays = (\<lambda>d k. case d of InvalidDate \<Rightarrow> InvalidDate | Date t \<Rightarrow> Date (t - k * 86400000)),
       newDate = sample_parse,
       trim = (\<lambda>s. s) \<rparr>"

definition sample_history :: "int \<Rightarrow> gh_ref" where
  "sample_history k =
     \<lparr> target = Some \<lparr> history = Some
         \<lparr> totalCount = Some k,
           gh_history.nodes = Some
             [\<lparr> committedDate = Some ''2024-01-01T00:00:00Z'',
                author = Some \<lparr> gh_author.name = Some ''Ann'', email = Some ''ann@example.org'',
                                 user = Some \<lparr> login = Some ''ann'' \<rparr> \<rparr> \<rparr>] \<rparr> \<rparr> \<rparr>"

definition repo_a :: gh_repo where
  "repo_a = \<lparr> gh_repo.name = ''a'', gh_repo.pushedAt = ''2024-01-01T00:00:00Z'',
               diskUsage = Some 12, defaultBranchRef = Some (sample_history 5) \<rparr>"

definition repo_b :: gh_repo where
  "repo_b = \<lparr> gh_repo.name = ''b'', gh_repo.pushedAt = ''2024-11-18T00:00:00Z'',
               diskUsage = Some 7, defaultBranchRef = Some (sample_history 5) \<rparr>"

definition repo_c :: gh_repo where
  "repo_c = \<lparr> gh_repo.name = ''c'', gh_repo.pushedAt = ''2024-01-01T00:00:00Z'',
               diskUsage = Some 90, defaultBranchRef = Some (sample_history 50) \<rparr>"

definition repo_d :: gh_repo where
  "repo_d = \<lparr> gh_repo.name = ''d'', gh_repo.pushedAt = ''2024-01-01T00:00:00Z'',
               diskUsage = Some 1, defaultBranchRef = Some (sample_history 3) \<rparr>"

definition repo_e :: gh_repo where
  "repo_e = \<lparr> gh_repo.name = ''e'', gh_repo.pushedAt = ''2024-01-01T00:00:00Z'',
               diskUsage = None, defaultBranchRef = None \<rparr>"

definition repo_f :: gh_repo where
  "repo_f = \<lparr> gh_repo.name = ''f'', gh_repo.pushedAt = ''2024-06-01T00:00:00Z'',
               diskUsage = Some 4, defaultBranchRef = Some (sample_history 2) \<rparr>"

definition sample_opts :: options where
  "sample_opts =
     \<lparr> org = ''acme'', token = Some ''ghp_abc123'', commitThreshold = 20, staleDays = 180,
       ignore = Some ''ignore.txt'', json = True, csv = None \<rparr>"

definition sample_globals :: globals where
  "sample_globals =
     \<lparr> lib = sample_lib, opts = sample_opts, cutoffDate = Date 1717200000000,
       ignoreList = set [''d''] \<rparr>"

definition page_of :: "gh_repo list \<Rightarrow> string option \<Rightarrow> bool \<Rightarrow> response" where
  "page_of ns c m = Ok \<lparr> gh_repositories.nodes = ns, pageInfo = \<lparr> endCursor = c, hasNextPage = m \<rparr> \<rparr>"

definition server_of :: "(string option \<times> response) list \<Rightarrow> string option \<Rightarrow> response" where
  "server_of tbl c = (case map_of tbl c of None \<Rightarrow> NotOk ''Bad credentials'' | Some r \<Rightarrow> r)"

definition sample_server :: "string option \<Rightarrow> response" where
  "sample_server =
     server_of
       [(None, page_of [repo_d, repo_a, repo_c] (Some ''p2'') True),
        (Some ''p2'', page_of [repo_e, repo_b, repo_a] (Some ''p3'') True),
        (Some ''p3'', page_of [repo_a] None False)]"

definition record_a :: result where
  "record_a =
     \<lparr> result.name = ''a'', result.pushedAt = ''2024-01-01'', commits = 5, size' = ''12 kB'',
       lastCommitDate = ''2024-01-01'', lastCommitAuthor = ''ann'',
       lastCommitAuthorEmail = ''ann@example.org'' \<rparr>"

definition record_e :: result where
  "record_e =
     \<lparr> result.name = ''e'', result.pushedAt = ''2024-01-01'', commits = 0, size' = ''null kB'',
       lastCommitDate = ''2024-01-01'', lastCommitAuthor = ''unknown'',
       lastCommitAuthorEmail = ''unknown'' \<rparr>"

definition server_at_cutoff :: "string option \<Rightarrow> response" where
  "server_at_cutoff =
     server_of
       [(None, page_of [repo_a, repo_f] (Some ''p2'') True),
        (Some ''p2'', page_of [repo_b] None False)]"

definition sample_rank :: "string option \<Rightarrow> nat" where
  "sample_rank c =
     (case c of None \<Rightarrow> 3 | Some s \<Rightarrow> if s = ''p2'' then 2 else if s = ''p3'' then 1 else 0)"

definition sample_world :: world where
  "sample_world =
     \<lparr> now = Date 1732752000000,
       readTextFile = (\<lambda>file. if file = ''ignore.txt'' then Some (''d'' @ [CHR 0x0A]) else None),
       fetch = sample_server \<rparr>"

definition server_failing :: "string option \<Rightarrow> response" where
  "server_failing = server_of [(None, page_of [repo_d, repo_a] (Some ''p2'') True)]"

definition failing_world :: world where
  "failing_world = sample_world \<lparr> fetch := server_failing \<rparr>"

text \<open>A remote source that answers every cursor with a page: the two pages, then empty last pages.\<close>

definition server_paged :: "string option \<Rightarrow> response" where
  "server_paged c =
     (case map_of [(None, page_of [repo_d, repo_a, repo_c] (Some ''p2'') True),
                   (Some ''p2'', page_of [repo_e, repo_b, repo_a] (Some ''p3'') True)] c of
        None \<Rightarrow> page_of [] None False
      | Some r \<Rightarrow> r)"


section \<open>The loop over one page\<close>

lemma for_nodes_not_running: "snd (for_nodes G ns rs tr) \<noteq> Running"
  by (induction ns arbitrary: rs tr) (auto simp: Let_def split: sum.splits)

lemma for_nodes_trace: "\<exists>ev. fst (for_nodes G ns rs tr) = tr @ ev \<and> (\<forall>e\<in>set ev. \<exists>s. e = ConsoleLog s)"
proof (induction ns arbitrary: rs tr)
  case Nil
  then show ?case by simp
next
  case (Cons repo rest)
  show ?case
  proof (cases "gh_repo.name repo \<in> ignoreList G")
    case True
    from Cons.IH[of rs "tr @ [ConsoleLog (''Ignoring '' @ gh_repo.name repo)]"]
    obtain ev where "fst (for_nodes G rest rs (tr @ [ConsoleLog (''Ignoring '' @ gh_repo.name repo)])) = (tr @ [ConsoleLog (''Ignoring '' @ gh_repo.name repo)]) @ ev"
      and "\<forall>e\<in>set ev. \<exists>s. e = ConsoleLog s" by blast
    with True show ?thesis by (intro exI[of _ "ConsoleLog (''Ignoring '' @ gh_repo.name repo) # ev"]) simp
  next
    case False
    with Cons.IH show ?thesis
      by (auto simp: Let_def split: sum.splits)
  qed
qed

lemma for_nodes_results:
  "for_nodes G ns rs tr = (tr', Return (rs', b)) \<Longrightarrow>
   \<exists>new. rs' = rs @ new \<and> (\<forall>r\<in>set new. \<exists>repo\<in>set ns. qualifies G repo r)"
proof (induction ns arbitrary: rs tr)
  case Nil
  then show ?case by simp
next
  case (Cons repo rest)
  show ?case
  proof (cases "gh_repo.name repo \<in> ignoreList G")
    case True
    with Cons.prems Cons.IH show ?thesis by fastforce
  next
    case False
    note ni = this
    show ?thesis
    proof (cases "isAfter (parseISO (lib G) (gh_repo.pushedAt repo)) (cutoffDate G)")
      case True
      with ni Cons.prems show ?thesis by simp
    next
      case False
      note na = this
      show ?thesis
      proof (cases "isBefore (parseISO (lib G) (gh_repo.pushedAt repo)) (cutoffDate G) \<and> totalCommits_of repo < commitThreshold (opts G)")
        case False
        with ni na Cons.prems have "for_nodes G rest rs tr = (tr', Return (rs', b))" by (auto simp: Let_def)
        from Cons.IH[OF this] show ?thesis by fastforce
      next
        case True
        with ni na Cons.prems obtain r where sr: "stale_record (lib G) repo = Inr r"
          and rec: "for_nodes G rest (rs @ [r]) tr = (tr', Return (rs', b))"
          by (auto simp: Let_def split: sum.splits)
        from Cons.IH[OF rec] obtain new where n: "rs' = (rs @ [r]) @ new" "\<forall>r\<in>set new. \<exists>repo\<in>set rest. qualifies G repo r" by blast
        have q: "qualifies G repo r" using sr True ni by (simp add: qualifies_def)
        show ?thesis
          by (rule exI[of _ "r # new"]) (use n q in auto)
      qed
    qed
  qed
qed

lemma for_nodes_append:
  "for_nodes G (pre @ xs) rs tr =
     (case for_nodes G pre rs tr of
        (tr1, Return (rs1, True)) \<Rightarrow> for_nodes G xs rs1 tr1
      | other \<Rightarrow> other)"
  by (induction pre arbitrary: rs tr) (auto simp: Let_def split: sum.splits)

lemma for_nodes_outcome_trace_indep:
  "snd (for_nodes G ns rs tr) = snd (for_nodes G ns rs tr2)"
  by (induction ns arbitrary: rs tr tr2) (auto simp: Let_def split: sum.splits)

lemma for_nodes_break:
  "for_nodes G ns rs tr = (tr', Return (rs', False)) \<Longrightarrow>
   \<exists>repo\<in>set ns. gh_repo.name repo \<notin> ignoreList G \<and>
      isAfter (parseISO (lib G) (gh_repo.pushedAt repo)) (cutoffDate G)"
  by (induction ns arbitrary: rs tr) (auto simp: Let_def split: if_splits sum.splits)

lemma isBefore_irrefl [simp]: "\<not> isBefore d d"
  by (cases d) simp_all

lemma isAfter_irrefl [simp]: "\<not> isAfter d d"
  by (cases d) simp_all

lemma lastCommitInfo_None: "repo_history repo = None \<Longrightarrow> lastCommitInfo repo = None"
  by (simp add: lastCommitInfo_def)

section \<open>The loop over the pages\<close>

lemma fetch_loop_stopped [simp]: "fetch_loop n G srv c False rs tr = (tr, Return rs)"
  by (cases n) simp_all

lemma sourced_mono: "sourced G srv tr r \<Longrightarrow> set tr \<subseteq> set tr' \<Longrightarrow> sourced G srv tr' r"
  unfolding sourced_def by blast

lemma fetch_loop_sourced:
  "fetch_loop n G srv c b rs tr = (tr', Return rs') \<Longrightarrow> \<forall>r\<in>set rs. sourced G srv tr r \<Longrightarrow>
   \<forall>r\<in>set rs'. sourced G srv tr' r"
proof (induction n arbitrary: c b rs tr)
  case 0
  then show ?case by (auto split: if_splits)
next
  case (Suc n)
  show ?case
  proof (cases b)
    case False
    with Suc.prems show ?thesis by simp
  next
    case True
    show ?thesis
    proof (cases "srv c")
      case (NotOk body)
      with True Suc.prems show ?thesis by simp
    next
      case (Ok repos)
      obtain tr1 out where f: "for_nodes G (gh_repositories.nodes repos) rs (tr @ [Fetch c]) = (tr1, out)"
        by (cases "for_nodes G (gh_repositories.nodes repos) rs (tr @ [Fetch c])")
      from for_nodes_trace[of G "gh_repositories.nodes repos" rs "tr @ [Fetch c]"] f
      obtain ev where tr1: "tr1 = tr @ [Fetch c] @ ev" by auto
      show ?thesis
      proof (cases out)
        case (Return p)
        obtain rs1 b1 where p: "p = (rs1, b1)" by (cases p)
        from for_nodes_results[of G _ rs _ tr1 rs1 b1] f Return p
        obtain new where new: "rs1 = rs @ new" "\<forall>r\<in>set new. \<exists>repo\<in>set (gh_repositories.nodes repos). qualifies G repo r"
          by blast
        have old: "\<forall>r\<in>set rs. sourced G srv tr1 r"
          using Suc.prems(2) tr1 by (auto intro: sourced_mono)
        have "\<forall>r\<in>set new. sourced G srv tr1 r"
          unfolding sourced_def using new(2) Ok tr1 by fastforce
        with old new have inv: "\<forall>r\<in>set rs1. sourced G srv tr1 r" by auto
        show ?thesis
        proof (cases b1)
          case True
          with \<open>b\<close> Ok f Return p Suc.prems(1)
          have "fetch_loop n G srv (endCursor (pageInfo repos)) (hasNextPage (pageInfo repos)) rs1 tr1 = (tr', Return rs')"
            by simp
          from Suc.IH[OF this inv] show ?thesis .
        next
          case False
          with \<open>b\<close> Ok f Return p Suc.prems(1) have "tr' = tr1" "rs' = rs1" by simp_all
          with inv show ?thesis by simp
        qed
      qed (use True Ok f Suc.prems in simp_all)
    qed
  qed
qed

lemma fetch_loop_terminates:
  assumes adv: "advancing srv rank"
  shows "rank c < n \<Longrightarrow> snd (fetch_loop n G srv c b rs tr) \<noteq> Running"
proof (induction n arbitrary: c b rs tr)
  case 0
  then show ?case by simp
next
  case (Suc n)
  show ?case
  proof (cases b)
    case False
    then show ?thesis by simp
  next
    case True
    show ?thesis
    proof (cases "srv c")
      case (NotOk body)
      with True show ?thesis by simp
    next
      case (Ok repos)
      obtain tr1 out where f: "for_nodes G (gh_repositories.nodes repos) rs (tr @ [Fetch c]) = (tr1, out)"
        by (cases "for_nodes G (gh_repositories.nodes repos) rs (tr @ [Fetch c])")
      show ?thesis
      proof (cases out)
        case (Return p)
        obtain rs1 b1 where p: "p = (rs1, b1)" by (cases p)
        show ?thesis
        proof (cases "b1 \<and> hasNextPage (pageInfo repos)")
          case False
          with True Ok f Return p show ?thesis by (cases b1) simp_all
        next
          case t: True
          with adv Ok have "rank (endCursor (pageInfo repos)) < rank c"
            unfolding advancing_def by blast
          with Suc.prems have "rank (endCursor (pageInfo repos)) < n" by simp
          from Suc.IH[OF this] True t Ok f Return p show ?thesis by simp
        qed
      next
        case Running
        with f for_nodes_not_running[of G "gh_repositories.nodes repos" rs "tr @ [Fetch c]"]
        show ?thesis by simp
      qed (use True Ok f in simp_all)
    qed
  qed
qed

lemma fetch_loop_return_cause:
  "fetch_loop n G srv c True rs tr = (tr', Return rs') \<Longrightarrow>
   \<exists>c' page. Fetch c' \<in> set tr' \<and> srv c' = Ok page \<and> ending_page G page"
proof (induction n arbitrary: c rs tr)
  case 0
  then show ?case by simp
next
  case (Suc n)
  show ?case
  proof (cases "srv c")
    case (NotOk body)
    with Suc.prems show ?thesis by simp
  next
    case (Ok repos)
    obtain tr1 out where f: "for_nodes G (gh_repositories.nodes repos) rs (tr @ [Fetch c]) = (tr1, out)"
      by (cases "for_nodes G (gh_repositories.nodes repos) rs (tr @ [Fetch c])")
    from for_nodes_trace[of G "gh_repositories.nodes repos" rs "tr @ [Fetch c]"] f
    have in1: "Fetch c \<in> set tr1" by auto
    show ?thesis
    proof (cases out)
      case (Return p)
      obtain rs1 b1 where p: "p = (rs1, b1)" by (cases p)
      show ?thesis
      proof (cases b1)
        case False
        with Ok f Return p Suc.prems have eq: "tr' = tr1" by simp
        from f Return p False
        have "for_nodes G (gh_repositories.nodes repos) rs (tr @ [Fetch c]) = (tr1, Return (rs1, False))"
          by simp
        from for_nodes_break[OF this]
        have "ending_page G repos" unfolding ending_page_def by blast
        with in1 eq Ok show ?thesis by blast
      next
        case True
        note b1 = this
        show ?thesis
        proof (cases "hasNextPage (pageInfo repos)")
          case True
          with b1 Ok f Return p Suc.prems
          have "fetch_loop n G srv (endCursor (pageInfo repos)) True rs1 tr1 = (tr', Return rs')" by simp
          from Suc.IH[OF this] show ?thesis .
        next
          case False
          with b1 Ok f Return p Suc.prems have eq: "tr' = tr1" by simp
          from False have "ending_page G repos" by (simp add: ending_page_def)
          with in1 eq Ok show ?thesis by blast
        qed
      qed
    qed (use Ok f Suc.prems in simp_all)
  qed
qed

lemma fetch_loop_more_fuel:
  "snd (fetch_loop n G srv c b rs tr) \<noteq> Running \<Longrightarrow>
   fetch_loop (n + k) G srv c b rs tr = fetch_loop n G srv c b rs tr"
proof (induction n arbitrary: c b rs tr)
  case 0
  then show ?case by (cases b) simp_all
next
  case (Suc n)
  show ?case
  proof (cases b)
    case False
    then show ?thesis by simp
  next
    case True
    show ?thesis
    proof (cases "srv c")
      case (NotOk body)
      with True show ?thesis by simp
    next
      case (Ok repos)
      obtain tr1 out where f: "for_nodes G (gh_repositories.nodes repos) rs (tr @ [Fetch c]) = (tr1, out)"
        by (cases "for_nodes G (gh_repositories.nodes repos) rs (tr @ [Fetch c])")
      show ?thesis
      proof (cases out)
        case (Return p)
        obtain rs1 b1 where p: "p = (rs1, b1)" by (cases p)
        show ?thesis
        proof (cases b1)
          case False
          with True Ok f Return p show ?thesis by simp
        next
          case t: True
          with True Ok f Return p Suc.prems
          have "snd (fetch_loop n G srv (endCursor (pageInfo repos)) (hasNextPage (pageInfo repos)) rs1 tr1) \<noteq> Running"
            by simp
          from Suc.IH[OF this] True t Ok f Return p show ?thesis by simp
        qed
      qed (use True Ok f in simp_all)
    qed
  qed
qed

lemma stale_record_valid:
  assumes "isBefore (parseISO L (gh_repo.pushedAt repo)) cutoff" and "valid_dates L repo"
  shows "\<exists>r. stale_record L repo = Inr r"
proof -
  from assms(1) obtain t where t: "parseISO L (gh_repo.pushedAt repo) = Date t"
    by (cases "parseISO L (gh_repo.pushedAt repo)") simp_all
  with assms(2) obtain t' where "lastCommitDate_of L repo (Date t) = Date t'"
    by (cases "lastCommitDate_of L repo (Date t)") (simp_all add: valid_dates_def)
  with t show ?thesis
    by (simp add: stale_record_def format_def Let_def)
qed

lemma for_nodes_returns:
  "\<forall>repo\<in>set ns. valid_dates (lib G) repo \<Longrightarrow>
   \<exists>rs' b. snd (for_nodes G ns rs tr) = Return (rs', b)"
proof (induction ns arbitrary: rs tr)
  case Nil
  show ?case by auto
next
  case (Cons repo rest)
  from Cons.prems have v: "valid_dates (lib G) repo" and vs: "\<forall>repo\<in>set rest. valid_dates (lib G) repo"
    by simp_all
  note IH = Cons.IH[OF vs]
  show ?case
  proof (cases "gh_repo.name repo \<in> ignoreList G")
    case True
    with IH show ?thesis by auto
  next
    case ni: False
    show ?thesis
    proof (cases "isAfter (parseISO (lib G) (gh_repo.pushedAt repo)) (cutoffDate G)")
      case True
      with ni show ?thesis by auto
    next
      case na: False
      show ?thesis
      proof (cases "isBefore (parseISO (lib G) (gh_repo.pushedAt repo)) (cutoffDate G) \<and>
                    totalCommits_of repo < commitThreshold (opts G)")
        case False
        with ni na IH show ?thesis by (auto simp: Let_def)
      next
        case True
        then obtain r where "stale_record (lib G) repo = Inr r"
          using stale_record_valid[OF _ v] by blast
        with ni na True IH show ?thesis by (auto simp: Let_def)
      qed
    qed
  qed
qed

lemma fetch_loop_returns:
  assumes adv: "advancing srv rank" and pages: "pages_only srv" and dates: "dated (lib G) srv"
  shows "rank c < n \<Longrightarrow> \<exists>rs'. snd (fetch_loop n G srv c b rs tr) = Return rs'"
proof (induction n arbitrary: c b rs tr)
  case 0
  then show ?case by simp
next
  case (Suc n)
  show ?case
  proof (cases b)
    case False
    then show ?thesis by simp
  next
    case True
    from pages obtain repos where Ok: "srv c = Ok repos"
      unfolding pages_only_def by blast
    with dates have "\<forall>repo\<in>set (gh_repositories.nodes repos). valid_dates (lib G) repo"
      unfolding dated_def by blast
    from for_nodes_returns[OF this, of rs "tr @ [Fetch c]"]
    obtain rs1 b1 where s: "snd (for_nodes G (gh_repositories.nodes repos) rs (tr @ [Fetch c])) =
        Return (rs1, b1)"
      by blast
    obtain tr1 where f: "for_nodes G (gh_repositories.nodes repos) rs (tr @ [Fetch c]) =
        (tr1, Return (rs1, b1))"
      using s by (cases "for_nodes G (gh_repositories.nodes repos) rs (tr @ [Fetch c])") simp
    show ?thesis
    proof (cases "b1 \<and> hasNextPage (pageInfo repos)")
      case False
      with True Ok f show ?thesis by (cases b1) simp_all
    next
      case t: True
      with adv Ok have "rank (endCursor (pageInfo repos)) < rank c"
        unfolding advancing_def by blast
      with Suc.prems have "rank (endCursor (pageInfo repos)) < n" by simp
      from Suc.IH[OF this] True t Ok f show ?thesis by simp
    qed
  qed
qed

section \<open>The main program\<close>

lemma for_nodes_scan_events:
  "\<exists>ev. fst (for_nodes G ns rs tr) = tr @ ev \<and> (\<forall>e\<in>set ev. scan_event e \<and> (\<forall>c. e \<noteq> Fetch c))"
proof (induction ns arbitrary: rs tr)
  case Nil
  then show ?case by simp
next
  case (Cons repo rest)
  show ?case
  proof (cases "gh_repo.name repo \<in> ignoreList G")
    case True
    let ?l = "ConsoleLog (''Ignoring '' @ gh_repo.name repo)"
    from Cons.IH[of rs "tr @ [?l]"]
    obtain ev where ev: "fst (for_nodes G rest rs (tr @ [?l])) = (tr @ [?l]) @ ev"
      "\<forall>e\<in>set ev. scan_event e \<and> (\<forall>c. e \<noteq> Fetch c)" by blast
    have "scan_event ?l" by (simp add: scan_event_def)
    with True ev show ?thesis by (intro exI[of _ "?l # ev"]) simp
  next
    case False
    with Cons.IH show ?thesis
      by (auto simp: Let_def split: sum.splits)
  qed
qed

lemma fetch_loop_not_ok:
  "fetch_loop n G srv c0 b rs tr0 = (tr, out) \<Longrightarrow>
   \<exists>ev. tr = tr0 @ ev \<and> (\<forall>e\<in>set ev. scan_event e \<or> (\<exists>s. e = ConsoleError s)) \<and>
     (\<forall>c body. Fetch c \<in> set ev \<and> srv c = NotOk body \<longrightarrow>
        out = ProcessExit 1 \<and>
        (\<exists>pre. ev = pre @ [Fetch c, ConsoleError (api_error body)] \<and> (\<forall>e\<in>set pre. scan_event e)))"
proof (induction n arbitrary: c0 b rs tr0)
  case 0
  then show ?case by (auto split: if_splits)
next
  case (Suc n)
  show ?case
  proof (cases b)
    case False
    with Suc.prems show ?thesis by simp
  next
    case True
    show ?thesis
    proof (cases "srv c0")
      case (NotOk body0)
      with True Suc.prems have tr: "tr = tr0 @ [Fetch c0, ConsoleError (api_error body0)]"
        and out: "out = ProcessExit 1" by simp_all
      show ?thesis
        by (rule exI[of _ "[Fetch c0, ConsoleError (api_error body0)]"])
           (use tr out NotOk in \<open>auto simp: scan_event_def\<close>)
    next
      case (Ok repos)
      obtain tr1 o1 where f: "for_nodes G (gh_repositories.nodes repos) rs (tr0 @ [Fetch c0]) = (tr1, o1)"
        by (cases "for_nodes G (gh_repositories.nodes repos) rs (tr0 @ [Fetch c0])")
      from for_nodes_scan_events[of G "gh_repositories.nodes repos" rs "tr0 @ [Fetch c0]"] f
      obtain logs where tr1: "tr1 = tr0 @ [Fetch c0] @ logs"
        and logs: "\<forall>e\<in>set logs. scan_event e \<and> (\<forall>c. e \<noteq> Fetch c)" by auto
      have head: "\<forall>e\<in>set ([Fetch c0] @ logs). scan_event e"
        using logs by (auto simp: scan_event_def)
      have nohit: "\<not> (Fetch c \<in> set ([Fetch c0] @ logs) \<and> srv c = NotOk body)" for c body
        using logs Ok by auto
      have stop: ?thesis if "tr = tr1" 
        by (rule exI[of _ "[Fetch c0] @ logs"]) (use that tr1 head nohit in auto)
      show ?thesis
      proof (cases o1)
        case (Return p)
        obtain rs1 b1 where p: "p = (rs1, b1)" by (cases p)
        show ?thesis
        proof (cases b1)
          case False
          with True Ok f Return p Suc.prems have "tr = tr1" by simp
          then show ?thesis by (rule stop)
        next
          case t: True
          with True Ok f Return p Suc.prems
          have "fetch_loop n G srv (endCursor (pageInfo repos)) (hasNextPage (pageInfo repos)) rs1 tr1 = (tr, out)"
            by simp
          from Suc.IH[OF this] obtain ev where ev: "tr = tr1 @ ev"
            "\<forall>e\<in>set ev. scan_event e \<or> (\<exists>s. e = ConsoleError s)"
            "\<forall>c body. Fetch c \<in> set ev \<and> srv c = NotOk body \<longrightarrow>
               out = ProcessExit 1 \<and>
               (\<exists>pre. ev = pre @ [Fetch c, ConsoleError (api_error body)] \<and> (\<forall>e\<in>set pre. scan_event e))"
            by blast
          show ?thesis
          proof (rule exI[of _ "([Fetch c0] @ logs) @ ev"], intro conjI allI impI)
            show "tr = tr0 @ ([Fetch c0] @ logs) @ ev" using ev(1) tr1 by simp
            show "\<forall>e\<in>set (([Fetch c0] @ logs) @ ev). scan_event e \<or> (\<exists>s. e = ConsoleError s)"
              using head ev(2) by auto
          next
            fix c body
            assume a: "Fetch c \<in> set (([Fetch c0] @ logs) @ ev) \<and> srv c = NotOk body"
            with nohit[of c body] have "Fetch c \<in> set ev" by auto
            with a ev(3) obtain pre where o: "out = ProcessExit 1"
              and pre: "ev = pre @ [Fetch c, ConsoleError (api_error body)]" "\<forall>e\<in>set pre. scan_event e"
              by blast
            from o show "out = ProcessExit 1" .
            show "\<exists>pre. ([Fetch c0] @ logs) @ ev = pre @ [Fetch c, ConsoleError (api_error body)] \<and>
                    (\<forall>e\<in>set pre. scan_event e)"
              by (rule exI[of _ "([Fetch c0] @ logs) @ pre"]) (use pre head in auto)
          qed
        qed
      next
        case (Throw e)
        with True Ok f Suc.prems have "tr = tr1" by simp
        then show ?thesis by (rule stop)
      next
        case (ProcessExit k)
        with True Ok f Suc.prems have "tr = tr1" by simp
        then show ?thesis by (rule stop)
      next
        case Running
        with True Ok f Suc.prems have "tr = tr1" by simp
        then show ?thesis by (rule stop)
      qed
    qed
  qed
qed

section \<open>The earlier versions\<close>

lemma fetch_loop_first_trace: "\<exists>ev. fst (fetch_loop_first n G srv c rs tr) = tr @ ev"
proof (induction n arbitrary: c rs tr)
  case 0
  then show ?case by simp
next
  case (Suc n)
  show ?case
  proof (cases "srv c")
    case (NotOk body)
    then show ?thesis by simp
  next
    case (Ok repos)
    show ?thesis
    proof (cases "for_nodes_first G (gh_repositories.nodes repos) rs")
      case (Inl e)
      with Ok show ?thesis by simp
    next
      case (Inr rs1)
      from Suc.IH[of "endCursor (pageInfo repos)" rs1 "tr @ [Fetch c]"]
      obtain ev where "fst (fetch_loop_first n G srv (endCursor (pageInfo repos)) rs1 (tr @ [Fetch c])) = (tr @ [Fetch c]) @ ev"
        by blast
      with Ok Inr show ?thesis by (cases "hasNextPage (pageInfo repos)") simp_all
    qed
  qed
qed

lemma fetch_loop_part0_trace: "\<exists>ev. fst (fetch_loop_part0 n G srv c rs tr) = tr @ ev"
proof (induction n arbitrary: c rs tr)
  case 0
  then show ?case by simp
next
  case (Suc n)
  show ?case
  proof (cases "srv c")
    case (NotOk body)
    then show ?thesis by simp
  next
    case (Ok repos)
    show ?thesis
    proof (cases "for_nodes_part0 G (gh_repositories.nodes repos) rs")
      case (Inl e)
      with Ok show ?thesis by simp
    next
      case (Inr rs1)
      from Suc.IH[of "endCursor (pageInfo repos)" rs1 "tr @ [Fetch c]"]
      obtain ev where "fst (fetch_loop_part0 n G srv (endCursor (pageInfo repos)) rs1 (tr @ [Fetch c])) = (tr @ [Fetch c]) @ ev"
        by blast
      with Ok Inr show ?thesis by (cases "hasNextPage (pageInfo repos)") simp_all
    qed
  qed
qed

lemma report_first_trace: "\<exists>ev. fst (report_first cfg rs tr) = tr @ ev"
  by (simp add: report_first_def Let_def)

lemma report_part0_trace: "\<exists>ev. fst (report_part0 cfg rs tr) = tr @ ev"
  by (simp add: report_part0_def Let_def)

lemma main_first_head:
  assumes "token cfg = Some t" and "t \<noteq> []"
  shows "\<exists>rest. fst (main_first n L W cfg) = ConsoleLog t # rest"
proof -
  let ?G = "\<lparr> lib = L, opts = cfg, cutoffDate = subDays L (now W) (staleDays cfg), ignoreList = {} \<rparr>"
  let ?tr0 = "[ConsoleLog t, ConsoleLog (scanning_msg cfg)]"
  obtain tr out where run: "fetch_loop_first n ?G (fetch W) None [] ?tr0 = (tr, out)"
    by (cases "fetch_loop_first n ?G (fetch W) None [] ?tr0")
  from fetch_loop_first_trace[of n ?G "fetch W" None "[]" ?tr0] run
  obtain ev where tr: "tr = ?tr0 @ ev" by auto
  have tok: "truthy (token cfg)" "or_else (token cfg) [] = t"
    using assms by (simp_all add: truthy_def or_else_def)
  show ?thesis
  proof (cases out)
    case (Return rs)
    from report_first_trace[of cfg rs tr] obtain ev2 where "fst (report_first cfg rs tr) = tr @ ev2" by blast
    with tok run Return tr show ?thesis by (simp add: main_first_def)
  qed (use tok run tr in \<open>simp_all add: main_first_def\<close>)
qed

lemma main_part0_head:
  assumes "token cfg = Some t" and "t \<noteq> []"
  shows "\<exists>rest. fst (main_part0 n L W cfg) = ConsoleLog t # rest"
proof -
  let ?G = "\<lparr> lib = L, opts = cfg, cutoffDate = subDays L (now W) (staleDays cfg), ignoreList = {} \<rparr>"
  let ?tr0 = "[ConsoleLog t, ConsoleLog (scanning_msg cfg)]"
  obtain tr out where run: "fetch_loop_part0 n ?G (fetch W) None [] ?tr0 = (tr, out)"
    by (cases "fetch_loop_part0 n ?G (fetch W) None [] ?tr0")
  from fetch_loop_part0_trace[of n ?G "fetch W" None "[]" ?tr0] run
  obtain ev where tr: "tr = ?tr0 @ ev" by auto
  have tok: "truthy (token cfg)" "or_else (token cfg) [] = t"
    using assms by (simp_all add: truthy_def or_else_def)
  show ?thesis
  proof (cases out)
    case (Return rs)
    from report_part0_trace[of cfg rs tr] obtain ev2 where "fst (report_part0 cfg rs tr) = tr @ ev2" by blast
    with tok run Return tr show ?thesis by (simp add: main_part0_def)
  qed (use tok run tr in \<open>simp_all add: main_part0_def\<close>)
qed

lemma main_first_no_token: "\<not> truthy tok \<Longrightarrow> fst (main_first n L W (cfg\<lparr>token := tok\<rparr>)) = [ConsoleError token_required]"
  by (simp add: main_first_def)

lemma main_part0_no_token: "\<not> truthy tok \<Longrightarrow> fst (main_part0 n L W (cfg\<lparr>token := tok\<rparr>)) = [ConsoleError token_required]"
  by (simp add: main_part0_def)

section \<open>Numbers written and read back\<close>

lemma of_char_digit_char: "d < 10 \<Longrightarrow> (of_char (digit_char d) :: nat) = 48 + d"
  by (simp add: digit_char_def)

lemma is_digit_digit_char: "d < 10 \<Longrightarrow> is_digit (digit_char d)"
  by (simp add: is_digit_def of_char_digit_char)

lemma digit_val_digit_char: "d < 10 \<Longrightarrow> digit_val (digit_char d) = d"
  by (simp add: digit_val_def of_char_digit_char)

lemma read_digits_show_nat:
  "read_digits acc (show_nat n @ rest) = read_digits (acc * 10 ^ length (show_nat n) + n) rest"
proof (induction n arbitrary: acc rest rule: show_nat.induct)
  case (1 n)
  show ?case
  proof (cases "n < 10")
    case True
    then have s: "show_nat n = [digit_char n]" by (subst show_nat.simps) simp
    from True show ?thesis
      by (simp add: s is_digit_digit_char digit_val_digit_char mult.commute)
  next
    case False
    then have s: "show_nat n = show_nat (n div 10) @ [digit_char (n mod 10)]"
      by (subst show_nat.simps) simp
    have d: "n mod 10 < 10" by simp
    from False have "read_digits acc (show_nat (n div 10) @ (digit_char (n mod 10) # rest)) =
        read_digits (acc * 10 ^ length (show_nat (n div 10)) + n div 10) (digit_char (n mod 10) # rest)"
      by (rule "1.IH")
    then show ?thesis
      by (simp add: s is_digit_digit_char[OF d] digit_val_digit_char[OF d] algebra_simps)
  qed
qed

lemma show_nat_head:
  "\<exists>c cs. show_nat n = c # cs \<and> is_digit c \<and> (c = CHR ''0'' \<longrightarrow> n = 0 \<and> cs = [])"
proof (induction n rule: show_nat.induct)
  case (1 n)
  show ?case
  proof (cases "n < 10")
    case True
    then have s: "show_nat n = [digit_char n]" by (subst show_nat.simps) simp
    have "digit_char n = CHR ''0'' \<longrightarrow> n = 0"
    proof
      assume "digit_char n = CHR ''0''"
      then have "(of_char (digit_char n) :: nat) = of_char (CHR ''0'')" by simp
      with True show "n = 0" by (simp add: of_char_digit_char)
    qed
    with True s show ?thesis by (simp add: is_digit_digit_char)
  next
    case False
    then have s: "show_nat n = show_nat (n div 10) @ [digit_char (n mod 10)]"
      by (subst show_nat.simps) simp
    from False "1.IH" obtain c cs where h: "show_nat (n div 10) = c # cs" "is_digit c"
      "c = CHR ''0'' \<longrightarrow> n div 10 = 0 \<and> cs = []" by blast
    from False have "n div 10 \<noteq> 0" by simp
    with h s show ?thesis by auto
  qed
qed

lemma read_digits_stop: "no_digit_start rest \<Longrightarrow> read_digits acc rest = (acc, rest)"
  by (cases rest) (simp_all add: no_digit_start_def)

lemma parse_nat_show_nat:
  assumes "no_digit_start rest"
  shows "parse_nat (show_nat n @ rest) = Some (n, rest)"
proof -
  from show_nat_head[of n] obtain c cs where h: "show_nat n = c # cs" "is_digit c"
      "c = CHR ''0'' \<longrightarrow> n = 0 \<and> cs = []" by blast
  show ?thesis
  proof (cases "c = CHR ''0''")
    case True
    with h show ?thesis by (simp add: parse_nat_def)
  next
    case False
    have "read_digits 0 (show_nat n @ rest) = (n, rest)"
      by (simp add: read_digits_show_nat read_digits_stop[OF assms])
    with False h show ?thesis by (simp add: parse_nat_def)
  qed
qed

lemma is_digit_not_minus: "is_digit c \<Longrightarrow> c \<noteq> CHR ''-''"
  by (auto simp: is_digit_def)

lemma parse_number_show_int:
  assumes "no_digit_start rest"
  shows "parse_number (show_int i @ rest) = Some (i, rest)"
proof (cases "i < 0")
  case True
  then show ?thesis
    by (simp add: show_int_def parse_number_def parse_nat_show_nat[OF assms])
next
  case False
  from show_nat_head[of "nat i"] obtain c cs where h: "show_nat (nat i) = c # cs" "is_digit c"
    by blast
  from parse_nat_show_nat[OF assms, of "nat i"] h
  have "parse_nat (c # cs @ rest) = Some (nat i, rest)" by simp
  with False h is_digit_not_minus[OF h(2)] show ?thesis
    by (simp add: show_int_def parse_number_def)
qed

section \<open>Strings written and read back\<close>

lemma hex_val_hex_digit: "d < 16 \<Longrightarrow> hex_val (hex_digit d) = Some d"
  by (auto simp: hex_val_def hex_digit_def Let_def)

lemma hex_val_zero: "hex_val (CHR ''0'') = Some 0"
  by (simp add: hex_val_def)

lemma parse_chars_escape:
  "parse_chars (escape c @ t) = map_option (\<lambda>(s, r). (c # s, r)) (parse_chars t)"
proof -
  consider (named) "c = CHR 0x22 \<or> c = CHR 0x5C \<or> c = CHR 0x08 \<or> c = CHR 0x09 \<or> c = CHR 0x0A \<or>
       c = CHR 0x0C \<or> c = CHR 0x0D"
    | (control) "\<not> (c = CHR 0x22 \<or> c = CHR 0x5C \<or> c = CHR 0x08 \<or> c = CHR 0x09 \<or> c = CHR 0x0A \<or>
       c = CHR 0x0C \<or> c = CHR 0x0D)" "(of_char c :: nat) < 32"
    | (plain) "\<not> (c = CHR 0x22 \<or> c = CHR 0x5C \<or> c = CHR 0x08 \<or> c = CHR 0x09 \<or> c = CHR 0x0A \<or>
       c = CHR 0x0C \<or> c = CHR 0x0D)" "\<not> (of_char c :: nat) < 32"
    by blast
  then show ?thesis
  proof cases
    case named
    then show ?thesis
      by (auto simp: escape_def unescape_def)
  next
    case control
    let ?v = "of_char c :: nat"
    have h1: "hex_val (hex_digit (?v div 16)) = Some (?v div 16)"
      using control(2) by (intro hex_val_hex_digit) simp
    have h2: "hex_val (hex_digit (?v mod 16)) = Some (?v mod 16)"
      by (intro hex_val_hex_digit) simp
    have e: "escape c = [CHR 0x5C, CHR ''u'', CHR ''0'', CHR ''0'',
            hex_digit (?v div 16), hex_digit (?v mod 16)]"
      using control by (simp add: escape_def)
    have v: "?v div 16 * 16 + ?v mod 16 = ?v" by simp
    show ?thesis
      using control(2) by (simp add: e h1 h2 hex_val_zero v del: div_mult_mod_eq)
  next
    case plain
    then show ?thesis by (simp add: escape_def)
  qed
qed

lemma parse_chars_quoted:
  "parse_chars (concat (map escape s) @ CHR 0x22 # rest) = Some (s, rest)"
  by (induction s) (simp_all add: parse_chars_escape)

lemma is_ws_newline: "c \<in> set (newline k) \<Longrightarrow> is_ws c"
  by (auto simp: newline_def is_ws_def)

lemma skip_ws_append: "(\<And>c. c \<in> set ws \<Longrightarrow> is_ws c) \<Longrightarrow> skip_ws (ws @ s) = skip_ws s"
  by (simp add: skip_ws_def dropWhile_append2)

lemma skip_ws_Cons: "\<not> is_ws c \<Longrightarrow> skip_ws (c # s) = c # s"
  by (simp add: skip_ws_def)

lemma skip_ws_newline: "skip_ws (newline k @ s) = skip_ws s"
  by (rule skip_ws_append) (rule is_ws_newline)

lemma length_newline: "length (newline k) = Suc (2 * k)"
  by (simp add: newline_def)

lemma is_digit_value_start: "is_digit c \<Longrightarrow> value_start c"
  by (auto simp: is_digit_def value_start_def is_ws_def)

lemma show_int_head: "\<exists>c cs. show_int i = c # cs \<and> (is_digit c \<or> c = CHR ''-'')"
  using show_nat_head[of "nat i"] by (auto simp: show_int_def)

lemma stringify_head: "\<exists>c cs. stringify k v = c # cs \<and> value_start c"
proof (cases v)
  case (JNumber i)
  from show_int_head[of i] obtain c cs where "show_int i = c # cs" "is_digit c \<or> c = CHR ''-''"
    by blast
  with JNumber show ?thesis
    by (auto simp: is_digit_value_start) (simp add: value_start_def is_ws_def)
next
  case (JArray xs)
  then show ?thesis by (cases xs) (simp_all add: value_start_def is_ws_def)
next
  case (JObject ms)
  then show ?thesis by (cases ms) (simp_all add: value_start_def is_ws_def)
qed (simp_all add: value_start_def is_ws_def quote_def)

section \<open>Arrays and objects written and read back\<close>

lemma is_ws_not_digit: "is_ws c \<Longrightarrow> \<not> is_digit c"
  by (auto simp: is_ws_def is_digit_def)

lemma no_digit_start_ws:
  "(\<And>c. c \<in> set ws \<Longrightarrow> is_ws c) \<Longrightarrow> \<not> is_digit d \<Longrightarrow> no_digit_start (ws @ d # r)"
  by (cases ws) (simp_all add: no_digit_start_def is_ws_not_digit)

lemma no_digit_start_Cons: "\<not> is_digit d \<Longrightarrow> no_digit_start (d # r)"
  by (simp add: no_digit_start_def)

lemma not_digit_punct:
  "\<not> is_digit (CHR '']'')" "\<not> is_digit (CHR ''}'')" "\<not> is_digit (CHR '','')" "\<not> is_digit (CHR '':'')"
  by (simp_all add: is_digit_def)

lemma stringify_items_Cons: "\<exists>t. stringify_items k (x # xs) = stringify k x @ t"
  by (cases xs) simp_all

lemma elements_roundtrip:
  assumes elt: "\<And>x k n ws rest. x \<in> set xs \<Longrightarrow> (\<And>c. c \<in> set ws \<Longrightarrow> is_ws c) \<Longrightarrow>
             no_digit_start rest \<Longrightarrow> length (stringify k x) \<le> n \<Longrightarrow>
             parse_value n (ws @ stringify k x @ rest) = Some (x, rest)"
    and "xs \<noteq> []"
    and "\<And>c. c \<in> set ws \<Longrightarrow> is_ws c"
    and ws2: "\<And>c. c \<in> set ws2 \<Longrightarrow> is_ws c"
    and "length (stringify_items k xs) < n"
  shows "parse_elements n (ws @ stringify_items k xs @ ws2 @ CHR '']'' # rest) = Some (xs, rest)"
  using assms(1,2,3,5)
proof (induction xs arbitrary: n ws)
  case Nil
  then show ?case by simp
next
  case (Cons x xs)
  note prems = Cons.prems and IH = Cons.IH
  from prems(4) obtain m where n: "n = Suc m" by (cases n) simp_all
  show ?case
  proof (cases xs)
    case Nil
    have nd: "no_digit_start (ws2 @ CHR '']'' # rest)"
      by (rule no_digit_start_ws[OF ws2]) (simp_all add: not_digit_punct)
    from prems(4) Nil n have len: "length (stringify k x) \<le> m" by simp
    have pv: "parse_value m (ws @ stringify k x @ (ws2 @ CHR '']'' # rest)) = Some (x, ws2 @ CHR '']'' # rest)"
      by (rule prems(1)[OF _ prems(3) nd len]) simp_all
    have sk: "skip_ws (ws2 @ CHR '']'' # rest) = CHR '']'' # rest"
      by (simp add: skip_ws_append[OF ws2] skip_ws_Cons is_ws_def)
    show ?thesis
      using pv sk by (simp add: Nil n)
  next
    case (Cons y ys)
    let ?tail = "CHR '','' # newline k @ stringify_items k (y # ys) @ ws2 @ CHR '']'' # rest"
    have nd: "no_digit_start ?tail"
      by (rule no_digit_start_Cons) (simp add: not_digit_punct)
    from prems(4) Cons n have len: "length (stringify k x) \<le> m"
      and len2: "length (stringify_items k (y # ys)) < m" by simp_all
    have pv: "parse_value m (ws @ stringify k x @ ?tail) = Some (x, ?tail)"
      by (rule prems(1)[OF _ prems(3) nd len]) simp_all
    have sk: "skip_ws ?tail = ?tail"
      by (simp add: skip_ws_Cons is_ws_def)
    have rec: "parse_elements m (newline k @ stringify_items k xs @ ws2 @ CHR '']'' # rest) = Some (xs, rest)"
    proof (rule IH)
      show "xs \<noteq> []" using Cons by simp
      show "\<And>c. c \<in> set (newline k) \<Longrightarrow> is_ws c" by (rule is_ws_newline)
      show "length (stringify_items k xs) < m" using len2 Cons by simp
      fix x' k' n' ws' rest'
      assume m: "x' \<in> set xs" and w: "\<And>c. c \<in> set ws' \<Longrightarrow> is_ws c"
        and d: "no_digit_start rest'" and l: "length (stringify k' x') \<le> n'"
      from m have "x' \<in> set (x # xs)" by simp
      from prems(1)[OF this w d l]
      show "parse_value n' (ws' @ stringify k' x' @ rest') = Some (x', rest')" .
    qed
    show ?thesis
      using pv sk rec by (simp add: Cons n)
  qed
qed

lemma stringify_members_Cons: "\<exists>t. stringify_members k ((key, v) # ms) = quote key @ CHR '':'' # CHR '' '' # stringify k v @ t"
  by (cases ms) simp_all

lemma members_roundtrip:
  assumes elt: "\<And>key v k n ws rest. (key, v) \<in> set ms \<Longrightarrow> (\<And>c. c \<in> set ws \<Longrightarrow> is_ws c) \<Longrightarrow>
             no_digit_start rest \<Longrightarrow> length (stringify k v) \<le> n \<Longrightarrow>
             parse_value n (ws @ stringify k v @ rest) = Some (v, rest)"
    and "ms \<noteq> []"
    and "\<And>c. c \<in> set ws \<Longrightarrow> is_ws c"
    and ws2: "\<And>c. c \<in> set ws2 \<Longrightarrow> is_ws c"
    and "length (stringify_members k ms) < n"
  shows "parse_members n (ws @ stringify_members k ms @ ws2 @ CHR ''}'' # rest) = Some (ms, rest)"
  using assms(1,2,3,5)
proof (induction ms arbitrary: n ws)
  case Nil
  then show ?case by simp
next
  case (Cons kv ms)
  note prems = Cons.prems and IH = Cons.IH
  obtain key v where kv: "kv = (key, v)" by (cases kv)
  from prems(4) obtain m where n: "n = Suc m" by (cases n) simp_all
  have sp: "\<And>c. c \<in> set '' '' \<Longrightarrow> is_ws c" by (simp add: is_ws_def)
  have q: "skip_ws (ws @ quote key @ t) = CHR 0x22 # concat (map escape key) @ CHR 0x22 # t" for t
    by (simp add: skip_ws_append[OF prems(3)] quote_def skip_ws_Cons is_ws_def)
  have colon: "skip_ws (CHR '':'' # t) = CHR '':'' # t" for t
    by (simp add: skip_ws_Cons is_ws_def)
  show ?case
  proof (cases ms)
    case Nil
    have nd: "no_digit_start (ws2 @ CHR ''}'' # rest)"
      by (rule no_digit_start_ws[OF ws2]) (simp_all add: not_digit_punct)
    from prems(4) Nil n kv have len: "length (stringify k v) \<le> m" by simp
    have pv: "parse_value m ('' '' @ stringify k v @ (ws2 @ CHR ''}'' # rest)) = Some (v, ws2 @ CHR ''}'' # rest)"
      by (rule prems(1)[of key v, OF _ sp nd len]) (simp_all add: kv)
    have sk: "skip_ws (ws2 @ CHR ''}'' # rest) = CHR ''}'' # rest"
      by (simp add: skip_ws_append[OF ws2] skip_ws_Cons is_ws_def)
    have "parse_members (Suc m) (ws @ quote key @ (CHR '':'' # CHR '' '' # stringify k v @ ws2 @ CHR ''}'' # rest)) =
        Some ([(key, v)], rest)"
      using pv sk by (simp add: q parse_chars_quoted colon)
    then show ?thesis by (simp add: Nil n kv)
  next
    case (Cons kv2 ms2)
    let ?tail = "CHR '','' # newline k @ stringify_members k ms @ ws2 @ CHR ''}'' # rest"
    have nd: "no_digit_start ?tail"
      by (rule no_digit_start_Cons) (simp add: not_digit_punct)
    have sm: "stringify_members k ((key, v) # ms) =
        quote key @ CHR '':'' # CHR '' '' # stringify k v @ CHR '','' # newline k @ stringify_members k ms"
      using Cons by (cases kv2) simp
    from prems(4) n kv sm have len: "length (stringify k v) \<le> m"
      and len2: "length (stringify_members k ms) < m" by simp_all
    have pv: "parse_value m ('' '' @ stringify k v @ ?tail) = Some (v, ?tail)"
      by (rule prems(1)[of key v, OF _ sp nd len]) (simp_all add: kv)
    have sk: "skip_ws ?tail = ?tail"
      by (simp add: skip_ws_Cons is_ws_def)
    have rec: "parse_members m (newline k @ stringify_members k ms @ ws2 @ CHR ''}'' # rest) = Some (ms, rest)"
    proof (rule IH)
      show "ms \<noteq> []" using Cons by simp
      show "\<And>c. c \<in> set (newline k) \<Longrightarrow> is_ws c" by (rule is_ws_newline)
      show "length (stringify_members k ms) < m" by (rule len2)
      fix key' v' k' n' ws' rest'
      assume m: "(key', v') \<in> set ms" and w: "\<And>c. c \<in> set ws' \<Longrightarrow> is_ws c"
        and d: "no_digit_start rest'" and l: "length (stringify k' v') \<le> n'"
      from m have "(key', v') \<in> set (kv # ms)" by simp
      from prems(1)[OF this w d l]
      show "parse_value n' (ws' @ stringify k' v' @ rest') = Some (v', rest')" .
    qed
    have "parse_members (Suc m) (ws @ quote key @ (CHR '':'' # CHR '' '' # stringify k v @ ?tail)) =
        Some ((key, v) # ms, rest)"
      using pv sk rec by (simp add: q parse_chars_quoted colon)
    then show ?thesis by (simp add: n kv sm)
  qed
qed

lemma value_roundtrip:
  "(\<And>c. c \<in> set ws \<Longrightarrow> is_ws c) \<Longrightarrow> no_digit_start rest \<Longrightarrow> length (stringify k v) \<le> n \<Longrightarrow>
   parse_value n (ws @ stringify k v @ rest) = Some (v, rest)"
proof (induction v arbitrary: k n ws rest)
  case JNull
  then obtain m where n: "n = Suc m" by (cases n) simp_all
  have "skip_ws (ws @ ''null'' @ rest) = ''null'' @ rest"
    by (simp add: skip_ws_append[OF JNull(1)] skip_ws_Cons is_ws_def)
  then show ?case by (simp add: n)
next
  case (JBool b)
  then obtain m where n: "n = Suc m" by (cases n) (simp_all split: if_splits)
  have "skip_ws (ws @ ''true'' @ rest) = ''true'' @ rest"
       "skip_ws (ws @ ''false'' @ rest) = ''false'' @ rest"
    by (simp_all add: skip_ws_append[OF JBool(1)] skip_ws_Cons is_ws_def)
  then show ?case by (cases b) (simp_all add: n)
next
  case (JNumber i)
  from show_int_head[of i] obtain c cs where h: "show_int i = c # cs" "is_digit c \<or> c = CHR ''-''"
    by blast
  from JNumber(3) h obtain m where n: "n = Suc m" by (cases n) simp_all
  from h(2) have nw: "\<not> is_ws c"
    by (auto simp: is_ws_def is_digit_def)
  from h(2) have ne: "c \<noteq> CHR 0x22" "c \<noteq> CHR ''[''" "c \<noteq> CHR ''{''" "c \<noteq> CHR ''t''"
      "c \<noteq> CHR ''f''" "c \<noteq> CHR ''n''"
    by (auto simp: is_digit_def)
  have sk: "skip_ws (ws @ show_int i @ rest) = c # cs @ rest"
    by (simp add: skip_ws_append[OF JNumber(1)] h(1) skip_ws_Cons[OF nw])
  from parse_number_show_int[OF JNumber(2), of i] h(1)
  have "parse_number (c # cs @ rest) = Some (i, rest)" by simp
  with sk ne show ?case by (simp add: n)
next
  case (JString s)
  then obtain m where n: "n = Suc m" by (cases n) (simp_all add: quote_def)
  have "skip_ws (ws @ quote s @ rest) = CHR 0x22 # concat (map escape s) @ CHR 0x22 # rest"
    by (simp add: skip_ws_append[OF JString(1)] quote_def skip_ws_Cons is_ws_def)
  then show ?case by (simp add: n parse_chars_quoted)
next
  case (JArray xs)
  note ws = JArray.prems(1)
  show ?case
  proof (cases xs)
    case Nil
    with JArray.prems(3) obtain m where n: "n = Suc m" by (cases n) simp_all
    have "skip_ws (ws @ ''[]'' @ rest) = ''[]'' @ rest"
      by (simp add: skip_ws_append[OF ws] skip_ws_Cons is_ws_def)
    then show ?thesis by (simp add: Nil n skip_ws_Cons is_ws_def)
  next
    case (Cons x xs')
    let ?items = "stringify_items (Suc k) xs"
    let ?cs = "newline (Suc k) @ ?items @ newline k @ CHR '']'' # rest"
    have s: "stringify k (JArray xs) = CHR ''['' # newline (Suc k) @ ?items @ newline k @ '']''"
      by (simp add: Cons)
    from JArray.prems(3) s obtain m where n: "n = Suc m" and len: "length ?items < m"
      by (cases n) (simp_all add: length_newline)
    from stringify_items_Cons[of "Suc k" x xs'] stringify_head[of "Suc k" x] Cons
    obtain c t where it: "?items = c # t" "value_start c" by auto
    have sk1: "skip_ws (ws @ CHR ''['' # ?cs) = CHR ''['' # ?cs"
      by (simp add: skip_ws_append[OF ws] skip_ws_Cons is_ws_def)
    have sk2: "skip_ws ?cs = c # t @ newline k @ CHR '']'' # rest"
      using it by (simp add: skip_ws_newline skip_ws_Cons value_start_def)
    have el: "parse_elements m ?cs = Some (xs, rest)"
    proof (rule elements_roundtrip)
      show "xs \<noteq> []" using Cons by simp
      show "\<And>c. c \<in> set (newline (Suc k)) \<Longrightarrow> is_ws c" by (rule is_ws_newline)
      show "\<And>c. c \<in> set (newline k) \<Longrightarrow> is_ws c" by (rule is_ws_newline)
      show "length ?items < m" by (rule len)
      fix x' k' n' ws' rest'
      assume "x' \<in> set xs" "\<And>c. c \<in> set ws' \<Longrightarrow> is_ws c" "no_digit_start rest'"
         "length (stringify k' x') \<le> n'"
      then show "parse_value n' (ws' @ stringify k' x' @ rest') = Some (x', rest')"
        by (rule JArray.IH)
    qed
    have "parse_value (Suc m) (ws @ CHR ''['' # ?cs) = Some (JArray xs, rest)"
      using it(2) by (simp add: sk1 sk2 el value_start_def)
    then show ?thesis by (simp add: s n)
  qed
next
  case (JObject ms)
  note ws = JObject.prems(1)
  show ?case
  proof (cases ms)
    case Nil
    with JObject.prems(3) obtain m where n: "n = Suc m" by (cases n) simp_all
    have "skip_ws (ws @ ''{}'' @ rest) = ''{}'' @ rest"
      by (simp add: skip_ws_append[OF ws] skip_ws_Cons is_ws_def)
    then show ?thesis by (simp add: Nil n skip_ws_Cons is_ws_def)
  next
    case (Cons kv ms')
    obtain key v where kv: "kv = (key, v)" by (cases kv)
    let ?mem = "stringify_members (Suc k) ms"
    let ?cs = "newline (Suc k) @ ?mem @ newline k @ CHR ''}'' # rest"
    have s: "stringify k (JObject ms) = CHR ''{'' # newline (Suc k) @ ?mem @ newline k @ ''}''"
      by (simp add: Cons)
    from JObject.prems(3) s obtain m where n: "n = Suc m" and len: "length ?mem < m"
      by (cases n) (simp_all add: length_newline)
    from stringify_members_Cons[of "Suc k" key v ms'] Cons kv
    obtain t where it: "?mem = CHR 0x22 # t" by (auto simp: quote_def)
    have sk1: "skip_ws (ws @ CHR ''{'' # ?cs) = CHR ''{'' # ?cs"
      by (simp add: skip_ws_append[OF ws] skip_ws_Cons is_ws_def)
    have sk2: "skip_ws ?cs = CHR 0x22 # t @ newline k @ CHR ''}'' # rest"
      using it by (simp add: skip_ws_newline skip_ws_Cons is_ws_def)
    have el: "parse_members m ?cs = Some (ms, rest)"
    proof (rule members_roundtrip)
      show "ms \<noteq> []" using Cons by simp
      show "\<And>c. c \<in> set (newline (Suc k)) \<Longrightarrow> is_ws c" by (rule is_ws_newline)
      show "\<And>c. c \<in> set (newline k) \<Longrightarrow> is_ws c" by (rule is_ws_newline)
      show "length ?mem < m" by (rule len)
      fix key' v' k' n' ws' rest'
      assume m: "(key', v') \<in> set ms" and r: "\<And>c. c \<in> set ws' \<Longrightarrow> is_ws c" "no_digit_start rest'"
         "length (stringify k' v') \<le> n'"
      have "v' \<in> Basic_BNFs.snds (key', v')" by simp
      from JObject.IH[OF m this r]
      show "parse_value n' (ws' @ stringify k' v' @ rest') = Some (v', rest')" .
    qed
    have "parse_value (Suc m) (ws @ CHR ''{'' # ?cs) = Some (JObject ms, rest)"
      by (simp add: sk1 sk2 el)
    then show ?thesis by (simp add: s n)
  qed
qed

lemma JSON_parse_stringify: "JSON_parse (JSON_stringify v) = Some v"
proof -
  have "parse_value (length (stringify 0 v)) ([] @ stringify 0 v @ []) = Some (v, [])"
    by (rule value_roundtrip) (simp_all add: no_digit_start_def)
  then show ?thesis
    by (simp add: JSON_parse_def JSON_stringify_def skip_ws_def)
qed

lemma result_of_json_result_json: "result_of_json (result_json r) = Some r"
  by (simp add: result_of_json_def result_json_def get_string_def get_int_def)

lemma results_of_json_results: "results_of_json (JArray (map result_json rs)) = Some rs"
  by (induction rs) (simp_all add: results_of_json_def result_of_json_result_json)

section \<open>The sample run\<close>

lemma stale_record_e: "stale_record sample_lib repo_e = Inr record_e"
  by code_simp

lemma sample_run:
  "fetchStaleRepos 5 sample_globals sample_server [] =
     ([Fetch None, ConsoleLog ''Ignoring d'', Fetch (Some ''p2'')], Return [record_a, record_e])"
  by code_simp

lemma sample_page_2: "sample_server (Some ''p2'') = Ok \<lparr> gh_repositories.nodes = [repo_e, repo_b, repo_a],
    pageInfo = \<lparr> endCursor = Some ''p3'', hasNextPage = True \<rparr> \<rparr>"
  by (simp add: sample_server_def server_of_def page_of_def)

lemma sample_globals_of: "globals_of sample_lib sample_world sample_opts = sample_globals"
  by (simp add: globals_of_def sample_globals_def sample_world_def sample_opts_def sample_lib_def
        readIgnoreList_def)

lemma sample_scan:
  "fetchStaleRepos 5 (globals_of sample_lib sample_world sample_opts) (fetch sample_world)
       [ConsoleLog (scanning_msg sample_opts)] =
     ([ConsoleLog (scanning_msg sample_opts), Fetch None, ConsoleLog ''Ignoring d'', Fetch (Some ''p2'')],
      Return [record_a, record_e])"
proof -
  have "fetchStaleRepos 5 sample_globals sample_server [ConsoleLog (scanning_msg sample_opts)] =
     ([ConsoleLog (scanning_msg sample_opts), Fetch None, ConsoleLog ''Ignoring d'', Fetch (Some ''p2'')],
      Return [record_a, record_e])"
    by code_simp
  moreover have "fetch sample_world = sample_server"
    by (simp add: sample_world_def)
  ultimately show ?thesis by (simp add: sample_globals_of)
qed

lemma failing_main:
  "main 5 sample_lib failing_world sample_opts =
     ([ConsoleLog (scanning_msg sample_opts), Fetch None, ConsoleLog ''Ignoring d'', Fetch (Some ''p2''),
       ConsoleError (api_error ''Bad credentials'')], ProcessExit 1)"
proof -
  have "fetchStaleRepos 5 sample_globals server_failing [ConsoleLog (scanning_msg sample_opts)] =
     ([ConsoleLog (scanning_msg sample_opts), Fetch None, ConsoleLog ''Ignoring d'', Fetch (Some ''p2''),
       ConsoleError (api_error ''Bad credentials'')], ProcessExit 1)"
    by code_simp
  moreover have "fetch failing_world = server_failing" "truthy (token sample_opts)"
    by (simp_all add: failing_world_def sample_opts_def truthy_def)
  moreover have "globals_of sample_lib failing_world sample_opts = sample_globals"
    by (simp add: globals_of_def sample_globals_def failing_world_def sample_world_def sample_opts_def
          sample_lib_def readIgnoreList_def)
  ultimately show ?thesis
    by (simp add: main_def)
qed

lemma sample_main:
  "main 5 sample_lib sample_world sample_opts =
     ([ConsoleLog (scanning_msg sample_opts), Fetch None, ConsoleLog ''Ignoring d'', Fetch (Some ''p2''),
       ConsoleLog (found_msg 2),
       ConsoleLog (JSON_stringify (JArray [result_json record_a, result_json record_e]))], Return ())"
proof -
  have "fetchStaleRepos 5 sample_globals sample_server [ConsoleLog (scanning_msg sample_opts)] =
     ([ConsoleLog (scanning_msg sample_opts), Fetch None, ConsoleLog ''Ignoring d'', Fetch (Some ''p2'')],
      Return [record_a, record_e])"
    by code_simp
  moreover have "fetch sample_world = sample_server" "truthy (token sample_opts)" "json sample_opts"
    by (simp_all add: sample_world_def sample_opts_def truthy_def)
  ultimately show ?thesis
    by (simp add: main_def sample_globals_of report_def numeral_2_eq_2)
qed

lemma server_paged_cases:
  "c = None \<or> c = Some ''p2'' \<or> server_paged c = page_of [] None False"
  by (auto simp: server_paged_def split: option.splits if_splits)

lemma paged_page_1: "server_paged None = page_of [repo_d, repo_a, repo_c] (Some ''p2'') True"
  by (simp add: server_paged_def)

lemma paged_page_2: "server_paged (Some ''p2'') = page_of [repo_e, repo_b, repo_a] (Some ''p3'') True"
  by (simp add: server_paged_def)

lemma paged_advancing: "advancing server_paged sample_rank"
  unfolding advancing_def
proof (intro allI impI)
  fix c page
  assume a: "server_paged c = Ok page \<and> hasNextPage (pageInfo page)"
  from server_paged_cases[of c] a consider "c = None" | "c = Some ''p2''"
    by (auto simp: page_of_def)
  then show "sample_rank (endCursor (pageInfo page)) < sample_rank c"
  proof cases
    case 1
    with a paged_page_1 show ?thesis by (auto simp: sample_rank_def page_of_def)
  next
    case 2
    with a paged_page_2 show ?thesis by (auto simp: sample_rank_def page_of_def)
  qed
qed

lemma paged_pages_only: "pages_only server_paged"
  unfolding pages_only_def
proof
  fix c
  from server_paged_cases[of c] paged_page_1 paged_page_2
  show "\<exists>page. server_paged c = Ok page"
    by (auto simp: page_of_def)
qed

lemma sample_valid_dates:
  "valid_dates sample_lib repo_a" "valid_dates sample_lib repo_b" "valid_dates sample_lib repo_c"
  "valid_dates sample_lib repo_d" "valid_dates sample_lib repo_e"
  by code_simp+

lemma paged_dated: "dated (lib sample_globals) server_paged"
  unfolding dated_def
proof (intro allI impI)
  fix c page repo
  assume a: "server_paged c = Ok page \<and> repo \<in> set (gh_repositories.nodes page)"
  have l: "lib sample_globals = sample_lib" by (simp add: sample_globals_def)
  from server_paged_cases[of c] a consider "c = None" | "c = Some ''p2''"
    by (auto simp: page_of_def)
  then show "valid_dates (lib sample_globals) repo"
  proof cases
    case 1
    with a paged_page_1 show ?thesis by (auto simp: l page_of_def sample_valid_dates)
  next
    case 2
    with a paged_page_2 show ?thesis by (auto simp: l page_of_def sample_valid_dates)
  qed
qed

lemma paged_run:
  "fetchStaleRepos 5 sample_globals server_paged [] =
     ([Fetch None, ConsoleLog ''Ignoring d'', Fetch (Some ''p2'')], Return [record_a, record_e])"
  by code_simp

section \<open>Claims about the scan\<close>

text \<open>
  C1. Every record that \<open>fetchStaleRepos\<close> returns was built from a candidate of a page
  that was requested; that candidate's parsed push date is strictly before the cutoff
  date, its effective commit count is strictly below the commit threshold, and its name
  is not in the ignore set. The record carries that name and that count.
\<close>

theorem emitted_record_has_stale_quiet_source:
  assumes "fetchStaleRepos n G srv tr = (tr', Return rs)" and "r \<in> set rs"
  shows "\<exists>c page repo.
           Fetch c \<in> set tr' \<and> srv c = Ok page \<and> repo \<in> set (gh_repositories.nodes page) \<and>
           stale_record (lib G) repo = Inr r \<and>
           isBefore (parseISO (lib G) (gh_repo.pushedAt repo)) (cutoffDate G) \<and>
           totalCommits_of repo < commitThreshold (opts G) \<and>
           gh_repo.name repo \<notin> ignoreList G \<and>
           commits r = totalCommits_of repo \<and> commits r < commitThreshold (opts G) \<and>
           result.name r = gh_repo.name repo \<and> result.name r \<notin> ignoreList G"
proof -
  from assms(1) have "fetch_loop n G srv None True [] tr = (tr', Return rs)"
    by (simp add: fetchStaleRepos_def)
  from fetch_loop_sourced[OF this] assms(2) have "sourced G srv tr' r" by simp
  then obtain c page repo where *: "Fetch c \<in> set tr'" "srv c = Ok page"
     "repo \<in> set (gh_repositories.nodes page)" "qualifies G repo r"
    unfolding sourced_def by blast
  from *(4) have q: "stale_record (lib G) repo = Inr r"
      "isBefore (parseISO (lib G) (gh_repo.pushedAt repo)) (cutoffDate G)"
      "totalCommits_of repo < commitThreshold (opts G)"
      "gh_repo.name repo \<notin> ignoreList G"
    by (simp_all add: qualifies_def)
  from q(1) have "commits r = totalCommits_of repo \<and> result.name r = gh_repo.name repo"
    by (auto simp: stale_record_def Let_def split: sum.splits)
  with * q show ?thesis by auto
qed

theorem emitted_record_has_stale_quiet_source_witness:
  "fetchStaleRepos 5 sample_globals sample_server [] =
     ([Fetch None, ConsoleLog ''Ignoring d'', Fetch (Some ''p2'')], Return [record_a, record_e]) \<and>
   record_e \<in> set [record_a, record_e] \<and>
   (\<exists>c page repo.
      Fetch c \<in> set [Fetch None, ConsoleLog ''Ignoring d'', Fetch (Some ''p2'')] \<and>
      sample_server c = Ok page \<and> repo \<in> set (gh_repositories.nodes page) \<and>
      stale_record (lib sample_globals) repo = Inr record_e \<and>
      isBefore (parseISO (lib sample_globals) (gh_repo.pushedAt repo)) (cutoffDate sample_globals) \<and>
      totalCommits_of repo < commitThreshold (opts sample_globals) \<and>
      gh_repo.name repo \<notin> ignoreList sample_globals \<and>
      commits record_e = totalCommits_of repo \<and>
      commits record_e < commitThreshold (opts sample_globals) \<and>
      result.name record_e = gh_repo.name repo \<and> result.name record_e \<notin> ignoreList sample_globals)"
proof -
  have mem: "record_e \<in> set [record_a, record_e]" by simp
  from emitted_record_has_stale_quiet_source[OF sample_run mem] sample_run mem
  show ?thesis by blast
qed

text \<open>
  C2, as amended. When the scan of a page reaches a candidate that is not ignored and whose
  push date is strictly after the cutoff, the loop over the pages returns at once: the
  results are those collected before that candidate, the trace is the trace up to it (so no
  further page is requested), and neither the candidate nor anything after it in this page
  or a later one contributes. No ordering of the stream is needed for this.
\<close>

theorem scan_stops_at_candidate_after_cutoff:
  assumes "srv c = Ok page"
    and "gh_repositories.nodes page = pre @ repo # post"
    and "gh_repo.name repo \<notin> ignoreList G"
    and "isAfter (parseISO (lib G) (gh_repo.pushedAt repo)) (cutoffDate G)"
    and "for_nodes G pre rs (tr @ [Fetch c]) = (tr1, Return (rs1, True))"
  shows "fetch_loop (Suc n) G srv c True rs tr = (tr1, Return rs1)"
  using assms by (simp add: for_nodes_append)

theorem scan_stops_at_candidate_after_cutoff_witness:
  "sample_server (Some ''p2'') = Ok \<lparr> gh_repositories.nodes = [repo_e, repo_b, repo_a],
      pageInfo = \<lparr> endCursor = Some ''p3'', hasNextPage = True \<rparr> \<rparr> \<and>
   [repo_e, repo_b, repo_a] = [repo_e] @ repo_b # [repo_a] \<and>
   gh_repo.name repo_b \<notin> ignoreList sample_globals \<and>
   isAfter (parseISO (lib sample_globals) (gh_repo.pushedAt repo_b)) (cutoffDate sample_globals) \<and>
   for_nodes sample_globals [repo_e] [record_a] ([Fetch None] @ [Fetch (Some ''p2'')]) =
     ([Fetch None, Fetch (Some ''p2'')], Return ([record_a, record_e], True)) \<and>
   fetch_loop (Suc 7) sample_globals sample_server (Some ''p2'') True [record_a] [Fetch None] =
     ([Fetch None, Fetch (Some ''p2'')], Return [record_a, record_e])"
proof -
  have n: "gh_repositories.nodes \<lparr> gh_repositories.nodes = [repo_e, repo_b, repo_a],
      pageInfo = \<lparr> endCursor = Some ''p3'', hasNextPage = True \<rparr> \<rparr> = [repo_e] @ repo_b # [repo_a]"
    by simp
  have i: "gh_repo.name repo_b \<notin> ignoreList sample_globals"
    by (simp add: repo_b_def sample_globals_def)
  have a: "isAfter (parseISO (lib sample_globals) (gh_repo.pushedAt repo_b)) (cutoffDate sample_globals)"
    by code_simp
  have f: "for_nodes sample_globals [repo_e] [record_a] ([Fetch None] @ [Fetch (Some ''p2'')]) =
     ([Fetch None, Fetch (Some ''p2'')], Return ([record_a, record_e], True))"
    by code_simp
  from scan_stops_at_candidate_after_cutoff[where srv = sample_server and c = "Some ''p2''"
         and pre = "[repo_e]" and repo = repo_b and post = "[repo_a]" and G = sample_globals
         and rs = "[record_a]" and tr = "[Fetch None]" and n = 7, OF sample_page_2 n i a f]
       sample_page_2 i a f
  show ?thesis by simp
qed

text \<open>
  C2, as stated, fails at a push date equal to the cutoff: candidate \<open>f\<close> is not ignored and
  its push date is not before the cutoff, yet the scan goes on and requests the next page.
\<close>

theorem scan_goes_on_at_cutoff_counterexample:
  "gh_repo.name repo_f \<notin> ignoreList sample_globals \<and>
   parseISO (lib sample_globals) (gh_repo.pushedAt repo_f) = Date 1717200000000 \<and>
   cutoffDate sample_globals = Date 1717200000000 \<and>
   \<not> isBefore (parseISO (lib sample_globals) (gh_repo.pushedAt repo_f)) (cutoffDate sample_globals) \<and>
   server_at_cutoff None = page_of [repo_a, repo_f] (Some ''p2'') True \<and>
   fetchStaleRepos 5 sample_globals server_at_cutoff [] =
     ([Fetch None, Fetch (Some ''p2'')], Return [record_a])"
proof (intro conjI)
  show "gh_repo.name repo_f \<notin> ignoreList sample_globals"
    by (simp add: repo_f_def sample_globals_def)
  show "parseISO (lib sample_globals) (gh_repo.pushedAt repo_f) = Date 1717200000000"
    by code_simp
  show "cutoffDate sample_globals = Date 1717200000000"
    by (simp add: sample_globals_def)
  show "\<not> isBefore (parseISO (lib sample_globals) (gh_repo.pushedAt repo_f)) (cutoffDate sample_globals)"
    by code_simp
  show "server_at_cutoff None = page_of [repo_a, repo_f] (Some ''p2'') True"
    by (simp add: server_at_cutoff_def server_of_def)
  show "fetchStaleRepos 5 sample_globals server_at_cutoff [] =
     ([Fetch None, Fetch (Some ''p2'')], Return [record_a])"
    by code_simp
qed

text \<open>
  C3. A record is built only from valid dates, and both of its date fields are the
  library's \<open>format\<close> with the pattern \<open>yyyy-MM-dd\<close>: of the parsed push date, and of the
  last-commit date. When the candidate's most recent commit is absent, the last-commit date
  is the push date (so the two date fields agree) and author and email are \<open>unknown\<close>.
  When the candidate has no commit history (no default branch, no target, or no history
  object), its most recent commit is absent and the record's commit count is 0.
\<close>

theorem record_of_candidate_without_history:
  assumes "stale_record L repo = Inr r"
  shows "(\<exists>t t'. parseISO L (gh_repo.pushedAt repo) = Date t \<and>
            result.pushedAt r = format_valid L t ''yyyy-MM-dd'' \<and>
            lastCommitDate_of L repo (Date t) = Date t' \<and>
            lastCommitDate r = format_valid L t' ''yyyy-MM-dd'') \<and>
         (lastCommitInfo repo = None \<longrightarrow>
            lastCommitDate_of L repo (parseISO L (gh_repo.pushedAt repo)) =
              parseISO L (gh_repo.pushedAt repo) \<and>
            lastCommitDate r = result.pushedAt r \<and>
            lastCommitAuthor r = ''unknown'' \<and>
            lastCommitAuthorEmail r = ''unknown'') \<and>
         (repo_history repo = None \<longrightarrow> lastCommitInfo repo = None \<and> commits r = 0)"
proof -
  from assms obtain t t' where t: "parseISO L (gh_repo.pushedAt repo) = Date t"
    and t': "lastCommitDate_of L repo (Date t) = Date t'"
    and r: "r = \<lparr> result.name = gh_repo.name repo,
                   result.pushedAt = format_valid L t ''yyyy-MM-dd'',
                   commits = totalCommits_of repo,
                   size' = size_of repo,
                   lastCommitDate = format_valid L t' ''yyyy-MM-dd'',
                   lastCommitAuthor = author_of repo,
                   lastCommitAuthorEmail = authorEmail_of repo \<rparr>"
    by (auto simp: stale_record_def format_def Let_def split: sum.splits date.splits)
  have fallback: "lastCommitDate_of L repo (parseISO L (gh_repo.pushedAt repo)) =
          parseISO L (gh_repo.pushedAt repo) \<and>
        lastCommitDate r = result.pushedAt r \<and>
        lastCommitAuthor r = ''unknown'' \<and> lastCommitAuthorEmail r = ''unknown''"
    if li: "lastCommitInfo repo = None"
  proof -
    have d: "lastCommitDate_of L repo d = d" for d by (simp add: lastCommitDate_of_def li)
    from t t' d[of "Date t"] have "t' = t" by simp
    with r li d show ?thesis
      by (simp add: author_of_def authorEmail_of_def or_else_def)
  qed
  have count: "lastCommitInfo repo = None \<and> commits r = 0" if h: "repo_history repo = None"
    using h r by (simp add: lastCommitInfo_None totalCommits_of_def)
  from t t' r fallback count show ?thesis by auto
qed

theorem record_of_candidate_without_history_witness:
  "stale_record sample_lib repo_e = Inr record_e \<and>
   (\<exists>t t'. parseISO sample_lib (gh_repo.pushedAt repo_e) = Date t \<and>
            result.pushedAt record_e = format_valid sample_lib t ''yyyy-MM-dd'' \<and>
            lastCommitDate_of sample_lib repo_e (Date t) = Date t' \<and>
            lastCommitDate record_e = format_valid sample_lib t' ''yyyy-MM-dd'') \<and>
   repo_history repo_e = None \<and>
   lastCommitInfo repo_e = None \<and>
   commits record_e = 0 \<and>
   lastCommitDate record_e = result.pushedAt record_e \<and>
   lastCommitAuthor record_e = ''unknown'' \<and>
   lastCommitAuthorEmail record_e = ''unknown''"
proof -
  have h: "repo_history repo_e = None"
    by (simp add: repo_history_def repo_e_def)
  note c = record_of_candidate_without_history[OF stale_record_e]
  note n = mp[OF conjunct2[OF conjunct2[OF c]] h]
  note f = mp[OF conjunct1[OF conjunct2[OF c]] conjunct1[OF n]]
  show ?thesis
    by (rule conjI[OF stale_record_e conjI[OF conjunct1[OF c] conjI[OF h conjI[OF conjunct1[OF n]
          conjI[OF conjunct2[OF n] conjunct2[OF f]]]]]])
qed

text \<open>
  C4. A candidate whose name is in the ignore set is skipped: the loop logs the skip and
  goes on with the next candidate, with the results and the flag untouched. Its push date
  is never looked at (replacing it by any other text changes nothing), and removing the
  candidate from the page changes neither the results nor whether the scan stops.
\<close>

theorem ignored_candidate_is_skipped:
  "gh_repo.name repo \<in> ignoreList G \<Longrightarrow>
     for_nodes G (repo # rest) rs tr =
       for_nodes G rest rs (tr @ [ConsoleLog (''Ignoring '' @ gh_repo.name repo)]) \<and>
     for_nodes G (repo\<lparr>gh_repo.pushedAt := p\<rparr> # rest) rs tr = for_nodes G (repo # rest) rs tr \<and>
     snd (for_nodes G (pre @ repo # rest) rs tr) = snd (for_nodes G (pre @ rest) rs tr)"
proof (intro conjI)
  assume ig: "gh_repo.name repo \<in> ignoreList G"
  then show "for_nodes G (repo # rest) rs tr =
       for_nodes G rest rs (tr @ [ConsoleLog (''Ignoring '' @ gh_repo.name repo)])" by simp
  from ig show "for_nodes G (repo\<lparr>gh_repo.pushedAt := p\<rparr> # rest) rs tr = for_nodes G (repo # rest) rs tr"
    by simp
  obtain tr1 out where f: "for_nodes G pre rs tr = (tr1, out)" by (cases "for_nodes G pre rs tr")
  show "snd (for_nodes G (pre @ repo # rest) rs tr) = snd (for_nodes G (pre @ rest) rs tr)"
  proof (cases out)
    case (Return p)
    obtain rs1 b1 where p: "p = (rs1, b1)" by (cases p)
    show ?thesis
    proof (cases b1)
      case True
      with f Return p ig show ?thesis
        using for_nodes_outcome_trace_indep[of G rest rs1
                "tr1 @ [ConsoleLog (''Ignoring '' @ gh_repo.name repo)]" tr1]
        by (simp add: for_nodes_append)
    next
      case False
      with f Return p show ?thesis by (simp add: for_nodes_append)
    qed
  qed (use f in \<open>simp_all add: for_nodes_append\<close>)
qed

theorem ignored_candidate_is_skipped_witness:
  "gh_repo.name repo_d \<in> ignoreList sample_globals \<and>
   for_nodes sample_globals (repo_d # [repo_a]) [] [] =
     for_nodes sample_globals [repo_a] [] ([] @ [ConsoleLog (''Ignoring '' @ gh_repo.name repo_d)]) \<and>
   for_nodes sample_globals (repo_d\<lparr>gh_repo.pushedAt := ''2024-11-18T00:00:00Z''\<rparr> # [repo_a]) [] [] =
     for_nodes sample_globals (repo_d # [repo_a]) [] [] \<and>
   snd (for_nodes sample_globals ([repo_e] @ repo_d # [repo_a]) [] []) =
     snd (for_nodes sample_globals ([repo_e] @ [repo_a]) [] []) \<and>
   for_nodes sample_globals (repo_d # [repo_a]) [] [] =
     ([ConsoleLog ''Ignoring d''], Return ([record_a], True))"
proof -
  have i: "gh_repo.name repo_d \<in> ignoreList sample_globals"
    by (simp add: repo_d_def sample_globals_def)
  have e: "for_nodes sample_globals (repo_d # [repo_a]) [] [] =
     ([ConsoleLog ''Ignoring d''], Return ([record_a], True))"
    by code_simp
  from ignored_candidate_is_skipped[OF i, of "[repo_a]" "[]" "[]" "''2024-11-18T00:00:00Z''" "[repo_e]"] i e
  show ?thesis by simp
qed

text \<open>
  C6. Let the remote source answer every request with a page, its cursor advancing strictly
  through a finite stream, and let the dates of its candidates be valid. Then the loop over
  the pages terminates by returning: from some amount of fuel on, every run gives the same
  trace and returns the same results. And the loop ended in one of the two ways: some
  requested page reported no further page, or held a candidate that is not ignored and was
  pushed after the cutoff.
\<close>

theorem fetchStaleRepos_terminates:
  assumes "advancing srv rank" and "pages_only srv" and "dated (lib G) srv"
  shows "\<exists>n tr' rs.
           (\<forall>m\<ge>n. fetchStaleRepos m G srv tr = (tr', Return rs)) \<and>
           (\<exists>c page. Fetch c \<in> set tr' \<and> srv c = Ok page \<and>
              (\<not> hasNextPage (pageInfo page) \<or>
               (\<exists>repo\<in>set (gh_repositories.nodes page). gh_repo.name repo \<notin> ignoreList G \<and>
                  isAfter (parseISO (lib G) (gh_repo.pushedAt repo)) (cutoffDate G))))"
proof -
  define n where "n = Suc (rank None)"
  have "rank None < n" by (simp add: n_def)
  from fetch_loop_returns[OF assms this, of True "[]" tr]
  obtain rs where s: "snd (fetch_loop n G srv None True [] tr) = Return rs" by blast
  obtain tr' where run: "fetch_loop n G srv None True [] tr = (tr', Return rs)"
    using s by (cases "fetch_loop n G srv None True [] tr") simp
  have stable: "fetchStaleRepos m G srv tr = (tr', Return rs)" if "m \<ge> n" for m
  proof -
    from that obtain k where "m = n + k" using le_Suc_ex by blast
    with fetch_loop_more_fuel[of n G srv None True "[]" tr k] run
    show ?thesis by (simp add: fetchStaleRepos_def)
  qed
  have cause: "(\<exists>c page. Fetch c \<in> set tr' \<and> srv c = Ok page \<and>
                   (\<not> hasNextPage (pageInfo page) \<or>
                    (\<exists>repo\<in>set (gh_repositories.nodes page). gh_repo.name repo \<notin> ignoreList G \<and>
                       isAfter (parseISO (lib G) (gh_repo.pushedAt repo)) (cutoffDate G))))"
    using fetch_loop_return_cause[OF run] unfolding ending_page_def by simp
  from stable cause show ?thesis by blast
qed

theorem fetchStaleRepos_terminates_witness:
  "advancing server_paged sample_rank \<and> pages_only server_paged \<and>
   dated (lib sample_globals) server_paged \<and>
   (\<exists>n tr' rs.
      (\<forall>m\<ge>n. fetchStaleRepos m sample_globals server_paged [] = (tr', Return rs)) \<and>
      (\<exists>c page. Fetch c \<in> set tr' \<and> server_paged c = Ok page \<and>
                   (\<not> hasNextPage (pageInfo page) \<or>
                    (\<exists>repo\<in>set (gh_repositories.nodes page). gh_repo.name repo \<notin> ignoreList sample_globals \<and>
                       isAfter (parseISO (lib sample_globals) (gh_repo.pushedAt repo)) (cutoffDate sample_globals))))) \<and>
   fetchStaleRepos 5 sample_globals server_paged [] =
     ([Fetch None, ConsoleLog ''Ignoring d'', Fetch (Some ''p2'')], Return [record_a, record_e])"
proof -
  note c = fetchStaleRepos_terminates[OF paged_advancing paged_pages_only paged_dated,
             where tr = "[]"]
  show ?thesis
    by (rule conjI[OF paged_advancing conjI[OF paged_pages_only conjI[OF paged_dated
          conjI[OF c paged_run]]]])
qed

text \<open>
  C9. A candidate that is not ignored and whose parsed push date equals the cutoff date is
  passed over: scanning a page with it gives the same trace, results and flag as scanning
  the page without it. In particular it does not stop the scan: when it is the last
  candidate of a page, the loop goes on as the page's \<open>pageInfo\<close> says.
\<close>

theorem candidate_at_cutoff_is_passed_over:
  assumes "gh_repo.name repo \<notin> ignoreList G"
    and "parseISO (lib G) (gh_repo.pushedAt repo) = cutoffDate G"
  shows "for_nodes G (pre @ repo # post) rs tr = for_nodes G (pre @ post) rs tr \<and>
         (srv c = Ok page \<and> gh_repositories.nodes page = pre @ [repo] \<and>
          for_nodes G pre rs (tr @ [Fetch c]) = (tr1, Return (rs1, True)) \<longrightarrow>
            fetch_loop (Suc n) G srv c True rs tr =
              fetch_loop n G srv (endCursor (pageInfo page)) (hasNextPage (pageInfo page)) rs1 tr1)"
proof -
  have step: "for_nodes G (repo # xs) rs' tr' = for_nodes G xs rs' tr'" for xs rs' tr'
    using assms by (simp add: Let_def)
  have "for_nodes G (pre @ repo # post) rs tr = for_nodes G (pre @ post) rs tr"
    by (simp del: for_nodes.simps
          add: for_nodes_append[of G pre "repo # post"] for_nodes_append[of G pre post] step
          split: prod.splits outcome.splits bool.splits)
  moreover have "fetch_loop (Suc n) G srv c True rs tr =
              fetch_loop n G srv (endCursor (pageInfo page)) (hasNextPage (pageInfo page)) rs1 tr1"
    if "srv c = Ok page" "gh_repositories.nodes page = pre @ [repo]"
       "for_nodes G pre rs (tr @ [Fetch c]) = (tr1, Return (rs1, True))"
    using that by (simp del: for_nodes.simps add: for_nodes_append step for_nodes.simps(1))
  ultimately show ?thesis by blast
qed

theorem candidate_at_cutoff_is_passed_over_witness:
  "gh_repo.name repo_f \<notin> ignoreList sample_globals \<and>
   parseISO (lib sample_globals) (gh_repo.pushedAt repo_f) = cutoffDate sample_globals \<and>
   for_nodes sample_globals ([repo_a] @ repo_f # [repo_e]) [] [] =
     for_nodes sample_globals ([repo_a] @ [repo_e]) [] [] \<and>
   server_at_cutoff None = Ok \<lparr> gh_repositories.nodes = [repo_a, repo_f],
      pageInfo = \<lparr> endCursor = Some ''p2'', hasNextPage = True \<rparr> \<rparr> \<and>
   for_nodes sample_globals [repo_a] [] ([] @ [Fetch None]) = ([Fetch None], Return ([record_a], True)) \<and>
   fetch_loop (Suc 4) sample_globals server_at_cutoff None True [] [] =
     fetch_loop 4 sample_globals server_at_cutoff (Some ''p2'') True [record_a] [Fetch None]"
proof -
  have i: "gh_repo.name repo_f \<notin> ignoreList sample_globals"
    by (simp add: repo_f_def sample_globals_def)
  have p: "parseISO (lib sample_globals) (gh_repo.pushedAt repo_f) = cutoffDate sample_globals"
    by code_simp
  have s: "server_at_cutoff None = Ok \<lparr> gh_repositories.nodes = [repo_a, repo_f],
      pageInfo = \<lparr> endCursor = Some ''p2'', hasNextPage = True \<rparr> \<rparr>"
    by (simp add: server_at_cutoff_def server_of_def page_of_def)
  have f: "for_nodes sample_globals [repo_a] [] ([] @ [Fetch None]) =
      ([Fetch None], Return ([record_a], True))"
    by code_simp
  from candidate_at_cutoff_is_passed_over[OF i p, of "[repo_a]" "[repo_e]" "[]" "[]"
         server_at_cutoff None "\<lparr> gh_repositories.nodes = [repo_a, repo_f],
      pageInfo = \<lparr> endCursor = Some ''p2'', hasNextPage = True \<rparr> \<rparr>" "[Fetch None]" "[record_a]" 4]
       i p s f
  show ?thesis by simp
qed

section \<open>Claims about the whole run\<close>

text \<open>
  C5. When a page request of a run is answered by a response that is not ok, the process
  exits with code 1. The trace of the run is the scanning message, then events of the scan
  only (page requests and notes of ignored candidates), then that request and the error
  message written by \<open>console.error\<close>: the cross mark, the words \<open>GitHub API error:\<close>, a
  space, and the response body itself. Nothing follows the failed request but the message,
  so no further page is requested and no report (JSON text, CSV file, table) is produced.
\<close>

theorem not_ok_response_aborts_run:
  assumes "main n L W cfg = (tr, out)"
    and "Fetch c \<in> set tr"
    and "fetch W c = NotOk body"
  shows "out = ProcessExit 1 \<and>
         (\<exists>pre. tr = ConsoleLog (scanning_msg cfg) # pre @
                       [Fetch c,
                        ConsoleError ([CHR 0xE2, CHR 0x9D, CHR 0x8C] @ '' GitHub API error: '' @ body)] \<and>
                (\<forall>e\<in>set pre. scan_event e))"
proof -
  from assms(1,2) have tok: "truthy (token cfg)"
    by (auto simp: main_def split: if_splits)
  obtain tr1 o1 where run:
    "fetchStaleRepos n (globals_of L W cfg) (fetch W) [ConsoleLog (scanning_msg cfg)] = (tr1, o1)"
    by (cases "fetchStaleRepos n (globals_of L W cfg) (fetch W) [ConsoleLog (scanning_msg cfg)]")
  then have "fetch_loop n (globals_of L W cfg) (fetch W) None True [] [ConsoleLog (scanning_msg cfg)] =
      (tr1, o1)"
    by (simp add: fetchStaleRepos_def)
  from fetch_loop_not_ok[OF this] obtain ev where ev: "tr1 = [ConsoleLog (scanning_msg cfg)] @ ev"
     "\<forall>e\<in>set ev. scan_event e \<or> (\<exists>s. e = ConsoleError s)"
     "\<forall>c body. Fetch c \<in> set ev \<and> fetch W c = NotOk body \<longrightarrow>
        o1 = ProcessExit 1 \<and>
        (\<exists>pre. ev = pre @ [Fetch c, ConsoleError (api_error body)] \<and> (\<forall>e\<in>set pre. scan_event e))"
    by blast
  have pref: "\<exists>ev'. tr = tr1 @ ev' \<and> (\<forall>c. Fetch c \<notin> set ev')"
    using assms(1) tok run
    by (cases o1) (auto simp: main_def report_def Let_def split: if_splits)
  then obtain ev' where ev': "tr = tr1 @ ev'" "\<forall>c. Fetch c \<notin> set ev'" by blast
  with assms(2) ev(1) have "Fetch c \<in> set ev" by auto
  with ev(3) assms(3) obtain pre where o1: "o1 = ProcessExit 1"
    and pre: "ev = pre @ [Fetch c, ConsoleError (api_error body)]" "\<forall>e\<in>set pre. scan_event e"
    by blast
  have msg: "api_error body = [CHR 0xE2, CHR 0x9D, CHR 0x8C] @ '' GitHub API error: '' @ body"
    by (simp add: api_error_def)
  from o1 assms(1) tok run have "tr = tr1" "out = ProcessExit 1"
    by (simp_all add: main_def)
  with ev(1) pre msg show ?thesis by auto
qed

theorem not_ok_response_aborts_run_witness:
  "main 5 sample_lib failing_world sample_opts =
     ([ConsoleLog (scanning_msg sample_opts), Fetch None, ConsoleLog ''Ignoring d'', Fetch (Some ''p2''),
       ConsoleError ([CHR 0xE2, CHR 0x9D, CHR 0x8C] @ '' GitHub API error: '' @ ''Bad credentials'')],
      ProcessExit 1) \<and>
   Fetch (Some ''p2'') \<in> set [ConsoleLog (scanning_msg sample_opts), Fetch None,
       ConsoleLog ''Ignoring d'', Fetch (Some ''p2''),
       ConsoleError ([CHR 0xE2, CHR 0x9D, CHR 0x8C] @ '' GitHub API error: '' @ ''Bad credentials'')] \<and>
   fetch failing_world (Some ''p2'') = NotOk ''Bad credentials'' \<and>
   (\<exists>pre. [ConsoleLog (scanning_msg sample_opts), Fetch None, ConsoleLog ''Ignoring d'',
            Fetch (Some ''p2''),
            ConsoleError ([CHR 0xE2, CHR 0x9D, CHR 0x8C] @ '' GitHub API error: '' @ ''Bad credentials'')] =
           ConsoleLog (scanning_msg sample_opts) # pre @
             [Fetch (Some ''p2''),
              ConsoleError ([CHR 0xE2, CHR 0x9D, CHR 0x8C] @ '' GitHub API error: '' @ ''Bad credentials'')] \<and>
          (\<forall>e\<in>set pre. scan_event e))"
proof -
  have m: "main 5 sample_lib failing_world sample_opts =
     ([ConsoleLog (scanning_msg sample_opts), Fetch None, ConsoleLog ''Ignoring d'', Fetch (Some ''p2''),
       ConsoleError ([CHR 0xE2, CHR 0x9D, CHR 0x8C] @ '' GitHub API error: '' @ ''Bad credentials'')],
      ProcessExit 1)"
    by (simp add: failing_main api_error_def)
  have f: "Fetch (Some ''p2'') \<in> set [ConsoleLog (scanning_msg sample_opts), Fetch None,
       ConsoleLog ''Ignoring d'', Fetch (Some ''p2''),
       ConsoleError ([CHR 0xE2, CHR 0x9D, CHR 0x8C] @ '' GitHub API error: '' @ ''Bad credentials'')]"
    by simp
  have r: "fetch failing_world (Some ''p2'') = NotOk ''Bad credentials''"
    by (simp add: failing_world_def server_failing_def server_of_def)
  note c = not_ok_response_aborts_run[OF m f r]
  show ?thesis
    by (rule conjI[OF m conjI[OF f conjI[OF r conjunct2[OF c]]]])
qed

text \<open>
  C7, as amended. In JSON mode, a run whose scan returns at least one record prints
  \<open>JSON.stringify(results, null, 2)\<close>: the array of the records, each an object with
  exactly the fields name, pushedAt, commits, size, lastCommitDate, lastCommitAuthor and
  lastCommitAuthorEmail, in this order. The field size is always there: it is the disk
  usage followed by \<open>kB\<close>, and the text \<open>null kB\<close> when the data source reported none.
\<close>

theorem json_output_has_seven_fields:
  assumes "json cfg" and "truthy (token cfg)"
    and "fetchStaleRepos n (globals_of L W cfg) (fetch W) [ConsoleLog (scanning_msg cfg)] = (tr, Return rs)"
    and "rs \<noteq> []"
  shows "main n L W cfg =
           (tr @ [ConsoleLog (found_msg (length rs)),
                  ConsoleLog (stringify 0 (JArray (map result_json rs)))], Return ()) \<and>
         (\<forall>r\<in>set rs. \<exists>repo.
            stale_record L repo = Inr r \<and>
            result_json r =
              JObject [(''name'', JString (gh_repo.name repo)),
                       (''pushedAt'', JString (result.pushedAt r)),
                       (''commits'', JNumber (totalCommits_of repo)),
                       (''size'', JString ((case diskUsage repo of None \<Rightarrow> ''null''
                                            | Some k \<Rightarrow> show_int k) @ '' kB'')),
                       (''lastCommitDate'', JString (lastCommitDate r)),
                       (''lastCommitAuthor'', JString (author_of repo)),
                       (''lastCommitAuthorEmail'', JString (authorEmail_of repo))])"
proof (intro conjI ballI)
  from assms show "main n L W cfg =
           (tr @ [ConsoleLog (found_msg (length rs)),
                  ConsoleLog (stringify 0 (JArray (map result_json rs)))], Return ())"
    by (simp add: main_def report_def JSON_stringify_def)
next
  fix r assume r: "r \<in> set rs"
  from assms(3)
  have "fetch_loop n (globals_of L W cfg) (fetch W) None True [] [ConsoleLog (scanning_msg cfg)] =
      (tr, Return rs)"
    by (simp add: fetchStaleRepos_def)
  from fetch_loop_sourced[OF this] r have "sourced (globals_of L W cfg) (fetch W) tr r" by simp
  then obtain repo where "qualifies (globals_of L W cfg) repo r"
    unfolding sourced_def by blast
  then have sr: "stale_record L repo = Inr r"
    by (simp add: qualifies_def globals_of_def)
  then have "result_json r =
              JObject [(''name'', JString (gh_repo.name repo)),
                       (''pushedAt'', JString (result.pushedAt r)),
                       (''commits'', JNumber (totalCommits_of repo)),
                       (''size'', JString ((case diskUsage repo of None \<Rightarrow> ''null''
                                            | Some k \<Rightarrow> show_int k) @ '' kB'')),
                       (''lastCommitDate'', JString (lastCommitDate r)),
                       (''lastCommitAuthor'', JString (author_of repo)),
                       (''lastCommitAuthorEmail'', JString (authorEmail_of repo))]"
    by (auto simp: stale_record_def result_json_def size_of_def Let_def split: sum.splits)
  with sr show "\<exists>repo. stale_record L repo = Inr r \<and> result_json r =
              JObject [(''name'', JString (gh_repo.name repo)),
                       (''pushedAt'', JString (result.pushedAt r)),
                       (''commits'', JNumber (totalCommits_of repo)),
                       (''size'', JString ((case diskUsage repo of None \<Rightarrow> ''null''
                                            | Some k \<Rightarrow> show_int k) @ '' kB'')),
                       (''lastCommitDate'', JString (lastCommitDate r)),
                       (''lastCommitAuthor'', JString (author_of repo)),
                       (''lastCommitAuthorEmail'', JString (authorEmail_of repo))]"
    by blast
qed

theorem json_output_has_seven_fields_witness:
  "json sample_opts \<and> truthy (token sample_opts) \<and>
   fetchStaleRepos 5 (globals_of sample_lib sample_world sample_opts) (fetch sample_world)
       [ConsoleLog (scanning_msg sample_opts)] =
     ([ConsoleLog (scanning_msg sample_opts), Fetch None, ConsoleLog ''Ignoring d'', Fetch (Some ''p2'')],
      Return [record_a, record_e]) \<and>
   [record_a, record_e] \<noteq> [] \<and>
   main 5 sample_lib sample_world sample_opts =
     ([ConsoleLog (scanning_msg sample_opts), Fetch None, ConsoleLog ''Ignoring d'', Fetch (Some ''p2'')] @
      [ConsoleLog (found_msg (length [record_a, record_e])),
       ConsoleLog (stringify 0 (JArray (map result_json [record_a, record_e])))], Return ()) \<and>
   (\<exists>repo. stale_record sample_lib repo = Inr record_a \<and>
      result_json record_a =
        JObject [(''name'', JString (gh_repo.name repo)),
                 (''pushedAt'', JString (result.pushedAt record_a)),
                 (''commits'', JNumber (totalCommits_of repo)),
                 (''size'', JString ((case diskUsage repo of None \<Rightarrow> ''null''
                                      | Some k \<Rightarrow> show_int k) @ '' kB'')),
                 (''lastCommitDate'', JString (lastCommitDate record_a)),
                 (''lastCommitAuthor'', JString (author_of repo)),
                 (''lastCommitAuthorEmail'', JString (authorEmail_of repo))])"
proof -
  have j: "json sample_opts" and t: "truthy (token sample_opts)"
    by (simp_all add: sample_opts_def truthy_def)
  have f: "fetchStaleRepos 5 (globals_of sample_lib sample_world sample_opts) (fetch sample_world)
       [ConsoleLog (scanning_msg sample_opts)] =
     ([ConsoleLog (scanning_msg sample_opts), Fetch None, ConsoleLog ''Ignoring d'', Fetch (Some ''p2'')],
      Return [record_a, record_e])"
    by (rule sample_scan)
  have ne: "[record_a, record_e] \<noteq> []" by simp
  have mem: "record_a \<in> set [record_a, record_e]" by simp
  note c = json_output_has_seven_fields[OF j t f ne]
  show ?thesis
    by (rule conjI[OF j conjI[OF t conjI[OF f conjI[OF ne
          conjI[OF conjunct1[OF c] bspec[OF conjunct2[OF c] mem]]]]]])
qed

text \<open>
  C7, as stated, fails on a candidate without a reported disk usage: candidate \<open>e\<close> has
  none, and the object printed for it still has the field size, with the text \<open>null kB\<close>.
\<close>

theorem json_size_without_disk_usage_counterexample:
  "diskUsage repo_e = None \<and>
   stale_record sample_lib repo_e = Inr record_e \<and>
   main 5 sample_lib sample_world sample_opts =
     ([ConsoleLog (scanning_msg sample_opts), Fetch None, ConsoleLog ''Ignoring d'', Fetch (Some ''p2''),
       ConsoleLog (found_msg 2),
       ConsoleLog (JSON_stringify (JArray [result_json record_a, result_json record_e]))], Return ()) \<and>
   result_json record_e =
     JObject [(''name'', JString ''e''), (''pushedAt'', JString ''2024-01-01''),
              (''commits'', JNumber 0), (''size'', JString ''null kB''),
              (''lastCommitDate'', JString ''2024-01-01''),
              (''lastCommitAuthor'', JString ''unknown''),
              (''lastCommitAuthorEmail'', JString ''unknown'')]"
proof (intro conjI)
  show "diskUsage repo_e = None" by (simp add: repo_e_def)
  show "stale_record sample_lib repo_e = Inr record_e" by (rule stale_record_e)
  show "main 5 sample_lib sample_world sample_opts =
     ([ConsoleLog (scanning_msg sample_opts), Fetch None, ConsoleLog ''Ignoring d'', Fetch (Some ''p2''),
       ConsoleLog (found_msg 2),
       ConsoleLog (JSON_stringify (JArray [result_json record_a, result_json record_e]))], Return ())"
    by (rule sample_main)
  show "result_json record_e =
     JObject [(''name'', JString ''e''), (''pushedAt'', JString ''2024-01-01''),
              (''commits'', JNumber 0), (''size'', JString ''null kB''),
              (''lastCommitDate'', JString ''2024-01-01''),
              (''lastCommitAuthor'', JString ''unknown''),
              (''lastCommitAuthorEmail'', JString ''unknown'')]"
    by (simp add: result_json_def record_e_def)
qed

text \<open>
  C10. In the first embedded program of \<open>src/gh-stale-repos.ts\<close> and in
  \<open>src/unnamed/part_000\<close>, a run whose token passes the presence check has the token itself
  as the first event of its trace, written by \<open>console.log\<close>: before the scanning message
  and before every page request, whatever the fuel. So the output depends on the token: a
  run with any other token value has a different trace.
\<close>

theorem token_is_written_to_stdout:
  assumes "token cfg = Some t" and "t \<noteq> []"
  shows "(\<exists>rest. fst (main_first n L W cfg) = ConsoleLog t # rest) \<and>
         (\<exists>rest. fst (main_part0 n L W cfg) = ConsoleLog t # rest) \<and>
         (\<forall>tok. tok \<noteq> Some t \<longrightarrow>
            fst (main_first n L W (cfg\<lparr>token := tok\<rparr>)) \<noteq> fst (main_first n L W cfg) \<and>
            fst (main_part0 n L W (cfg\<lparr>token := tok\<rparr>)) \<noteq> fst (main_part0 n L W cfg))"
proof (intro conjI allI impI)
  show a: "\<exists>rest. fst (main_first n L W cfg) = ConsoleLog t # rest"
    using assms by (rule main_first_head)
  show b: "\<exists>rest. fst (main_part0 n L W cfg) = ConsoleLog t # rest"
    using assms by (rule main_part0_head)
  fix tok assume d: "tok \<noteq> Some t"
  show "fst (main_first n L W (cfg\<lparr>token := tok\<rparr>)) \<noteq> fst (main_first n L W cfg)"
  proof (cases "truthy tok")
    case False
    from main_first_no_token[OF this] a show ?thesis by auto
  next
    case True
    then obtain t' where t': "tok = Some t'" "t' \<noteq> []"
      by (auto simp: truthy_def split: option.splits)
    then have "token (cfg\<lparr>token := tok\<rparr>) = Some t'" by simp
    from main_first_head[OF this t'(2), of n L W] a d t' show ?thesis by auto
  qed
  show "fst (main_part0 n L W (cfg\<lparr>token := tok\<rparr>)) \<noteq> fst (main_part0 n L W cfg)"
  proof (cases "truthy tok")
    case False
    from main_part0_no_token[OF this] b show ?thesis by auto
  next
    case True
    then obtain t' where t': "tok = Some t'" "t' \<noteq> []"
      by (auto simp: truthy_def split: option.splits)
    then have "token (cfg\<lparr>token := tok\<rparr>) = Some t'" by simp
    from main_part0_head[OF this t'(2), of n L W] b d t' show ?thesis by auto
  qed
qed

theorem token_is_written_to_stdout_witness:
  "token sample_opts = Some ''ghp_abc123'' \<and> ''ghp_abc123'' \<noteq> [] \<and>
   (\<exists>rest. fst (main_first 5 sample_lib sample_world sample_opts) = ConsoleLog ''ghp_abc123'' # rest) \<and>
   (\<exists>rest. fst (main_part0 5 sample_lib sample_world sample_opts) = ConsoleLog ''ghp_abc123'' # rest) \<and>
   fst (main_first 5 sample_lib sample_world (sample_opts\<lparr>token := Some ''ghp_xyz789''\<rparr>)) \<noteq>
     fst (main_first 5 sample_lib sample_world sample_opts) \<and>
   fst (main_part0 5 sample_lib sample_world (sample_opts\<lparr>token := Some ''ghp_xyz789''\<rparr>)) \<noteq>
     fst (main_part0 5 sample_lib sample_world sample_opts) \<and>
   fst (main_first 0 sample_lib sample_world sample_opts) =
     [ConsoleLog ''ghp_abc123'', ConsoleLog (scanning_msg sample_opts)]"
proof -
  have t: "token sample_opts = Some ''ghp_abc123''" by (simp add: sample_opts_def)
  have ne: "''ghp_abc123'' \<noteq> []" by simp
  have d: "Some ''ghp_xyz789'' \<noteq> Some ''ghp_abc123''" by simp
  have z: "fst (main_first 0 sample_lib sample_world sample_opts) =
     [ConsoleLog ''ghp_abc123'', ConsoleLog (scanning_msg sample_opts)]"
    by (simp add: main_first_def truthy_def or_else_def t)
  note c = token_is_written_to_stdout[OF t ne, of 5 sample_lib sample_world]
  note i = mp[OF spec[OF conjunct2[OF conjunct2[OF c]]] d]
  show ?thesis
    by (rule conjI[OF t conjI[OF ne conjI[OF conjunct1[OF c] conjI[OF conjunct1[OF conjunct2[OF c]]
          conjI[OF conjunct1[OF i] conjI[OF conjunct2[OF i] z]]]]]])
qed

section \<open>The claim about the JSON round trip\<close>

text \<open>
  C8. For every list of result records, the text that the program prints in JSON mode,
  \<open>JSON.stringify\<close> with indentation 2 of the array of the records, is read back by the
  JSON reader as an array from which the same list of records is recovered, equal field
  for field.
\<close>

theorem json_round_trip:
  "parse_results (JSON_stringify (JArray (map result_json rs))) = Some rs"
  by (simp add: parse_results_def JSON_parse_stringify results_of_json_results)

theorem json_round_trip_witness:
  "parse_results (JSON_stringify (JArray (map result_json [record_a, record_e]))) =
     Some [record_a, record_e]"
  by (rule json_round_trip)

end
